theory Spec2Isabelle
  imports Complex_Main "HOL-Library.Log_Nat" "HOL-Library.Word"
begin

unbundle bit_operations_syntax

section \<open>JavaScript strings\<close>

text \<open>
  The strings that the decoder reads are modelled as \<^typ>\<open>string\<close>: the list of the code
  units, for strings whose code units are all below 256 (NMEA-0183 is 7-bit text).
  \<open>undefined\<close>, as read from an array index out of range, is \<open>None\<close> of
  \<^typ>\<open>string option\<close>. The text of the receive buffer, which comes out of the bytes of
  the transport, may hold any code unit: see the section on buffers below.
\<close>

definition charCodeAt :: "char \<Rightarrow> nat" where
  "charCodeAt c = of_char c"

text \<open>White space and line terminators below 256, as removed by \<open>String.prototype.trim\<close>.\<close>

definition isWhiteSpace :: "char \<Rightarrow> bool" where
  "isWhiteSpace c = (charCodeAt c \<in> {9, 10, 11, 12, 13, 32, 160})"

definition trimStart :: "string \<Rightarrow> string" where
  "trimStart s = dropWhile isWhiteSpace s"

definition trimEnd :: "string \<Rightarrow> string" where
  "trimEnd s = rev (dropWhile isWhiteSpace (rev s))"

definition trim :: "string \<Rightarrow> string" where
  "trim s = trimEnd (trimStart s)"

text \<open>\<open>s.indexOf(c)\<close> for a one-character needle; \<open>-1\<close> is \<open>None\<close>.\<close>

fun indexOf :: "'a list \<Rightarrow> 'a \<Rightarrow> nat option" where
  "indexOf [] c = None"
| "indexOf (x # xs) c = (if x = c then Some 0 else map_option Suc (indexOf xs c))"

text \<open>\<open>s.split(c)\<close> for a one-character separator: never the empty array.\<close>

fun split :: "char \<Rightarrow> string \<Rightarrow> string list" where
  "split c [] = [[]]"
| "split c (x # xs) =
     (if x = c then [] # split c xs
      else (case split c xs of [] \<Rightarrow> [[x]] | y # ys \<Rightarrow> (x # y) # ys))"

definition startsWith :: "string \<Rightarrow> string \<Rightarrow> bool" where
  "startsWith s p = (take (length p) s = p)"

definition endsWith :: "string \<Rightarrow> string \<Rightarrow> bool" where
  "endsWith s p = (length p \<le> length s \<and> drop (length s - length p) s = p)"

text \<open>
  \<open>toUpperCase\<close> on the ASCII letters. Code units from 128 on are left as they are: the
  only caller compares the result with a string over \<open>0-9A-F\<close>, and no such code unit
  has an upper-case form over that alphabet.
\<close>

definition toUpperChar :: "char \<Rightarrow> char" where
  "toUpperChar c =
     (if 97 \<le> charCodeAt c \<and> charCodeAt c \<le> 122 then char_of (charCodeAt c - 32) else c)"

definition toUpperCase :: "string \<Rightarrow> string" where
  "toUpperCase s = map toUpperChar s"

text \<open>\<open>s.replace(/\r?\n/g, '')\<close>: every line feed goes, with the carriage return before it.\<close>

fun removeNewlines :: "string \<Rightarrow> string" where
  "removeNewlines [] = []"
| "removeNewlines [x] = (if x = CHR 0x0A then [] else [x])"
| "removeNewlines (x # y # zs) =
     (if x = CHR 0x0A then removeNewlines (y # zs)
      else if x = CHR 0x0D \<and> y = CHR 0x0A then removeNewlines zs
      else x # removeNewlines (y # zs))"

text \<open>\<open>n.toString(16)\<close> for a non-negative integer, and \<open>padStart(2, '0')\<close>.\<close>

definition hexDigit :: "nat \<Rightarrow> char" where
  "hexDigit d = (if d < 10 then char_of (48 + d) else char_of (87 + d))"

function toString16 :: "nat \<Rightarrow> string" where
  "toString16 n = (if n < 16 then [hexDigit n] else toString16 (n div 16) @ [hexDigit (n mod 16)])"
  by pat_completeness auto
termination
  by (relation "measure id") auto

definition padStart2 :: "string \<Rightarrow> string" where
  "padStart2 s = replicate (2 - length s) CHR ''0'' @ s"

section \<open>Buffers and their text\<close>

text \<open>
  A \<open>Buffer\<close> is a list of bytes. A JavaScript string in general is the list of its
  UTF-16 code units, natural numbers below 65536 (\<open>units\<close>); \<open>wide\<close> takes a string of
  the decoder to its code units, and \<open>narrow\<close> goes back where every code unit is below 256.
\<close>

type_synonym byte = "8 word"

type_synonym units = "nat list"

definition wide :: "string \<Rightarrow> units" where
  "wide t = map of_char t"

definition narrow :: "units \<Rightarrow> string option" where
  "narrow us = (if list_all (\<lambda>u. u < 256) us then Some (map char_of us) else None)"

text \<open>
  \<open>data.toString('utf8')\<close>: the bytes are read as UTF-8, each well-formed sequence giving
  its code point and each maximal ill-formed part one U+FFFD. \<open>Pending cp needed lower upper\<close>
  is the decoder in the middle of a sequence, with the bits read so far, the number of
  bytes still to come and the range allowed to the next one. A byte that does not
  continue the sequence ends it with U+FFFD and is read again as a first byte; a
  sequence cut off by the end of the buffer gives U+FFFD (\<open>flush\<close>). No byte order mark
  is taken off.
\<close>

datatype utf8 = Idle | Pending nat nat nat nat

definition leadByte :: "nat \<Rightarrow> nat list \<times> utf8" where
  "leadByte b =
     (if b < 0x80 then ([b], Idle)
      else if 0xC2 \<le> b \<and> b \<le> 0xDF then ([], Pending (b mod 32) 1 0x80 0xBF)
      else if 0xE0 \<le> b \<and> b \<le> 0xEF then
        ([], Pending (b mod 16) 2 (if b = 0xE0 then 0xA0 else 0x80) (if b = 0xED then 0x9F else 0xBF))
      else if 0xF0 \<le> b \<and> b \<le> 0xF4 then
        ([], Pending (b mod 8) 3 (if b = 0xF0 then 0x90 else 0x80) (if b = 0xF4 then 0x8F else 0xBF))
      else ([0xFFFD], Idle))"

definition decodeByte :: "utf8 \<Rightarrow> nat \<Rightarrow> nat list \<times> utf8" where
  "decodeByte st b =
     (case st of
        Idle \<Rightarrow> leadByte b
      | Pending cp needed lower upper \<Rightarrow>
          if lower \<le> b \<and> b \<le> upper then
            (if needed = 1 then ([cp * 64 + b mod 64], Idle)
             else ([], Pending (cp * 64 + b mod 64) (needed - 1) 0x80 0xBF))
          else (case leadByte b of (out, st') \<Rightarrow> (0xFFFD # out, st')))"

fun decodeBytes :: "utf8 \<Rightarrow> nat list \<Rightarrow> nat list \<times> utf8" where
  "decodeBytes st [] = ([], st)"
| "decodeBytes st (b # bs) =
     (case decodeByte st b of (out, st') \<Rightarrow>
        (case decodeBytes st' bs of (outs, st'') \<Rightarrow> (out @ outs, st'')))"

definition flush :: "utf8 \<Rightarrow> nat list" where
  "flush st = (if st = Idle then [] else [0xFFFD])"

text \<open>The code units of a code point: itself, or a surrogate pair from U+10000 on.\<close>

definition utf16 :: "nat \<Rightarrow> units" where
  "utf16 cp =
     (if cp < 0x10000 then [cp]
      else [0xD800 + (cp - 0x10000) div 0x400, 0xDC00 + (cp - 0x10000) mod 0x400])"

definition toStringUtf8 :: "byte list \<Rightarrow> units" where
  "toStringUtf8 data =
     (case decodeBytes Idle (map unat data) of (cps, st) \<Rightarrow> concat (map utf16 (cps @ flush st)))"

text \<open>
  \<open>Buffer.from(text)\<close>: the UTF-8 bytes of the code points of the string, a surrogate
  without its partner counting as U+FFFD.
\<close>

definition isSurrogate :: "nat \<Rightarrow> bool" where
  "isSurrogate u = (0xD800 \<le> u \<and> u < 0xE000)"

fun codePoints :: "units \<Rightarrow> nat list" where
  "codePoints [] = []"
| "codePoints [u] = [if isSurrogate u then 0xFFFD else u]"
| "codePoints (u # v # us) =
     (if 0xD800 \<le> u \<and> u < 0xDC00 \<and> 0xDC00 \<le> v \<and> v < 0xE000
      then (0x10000 + (u - 0xD800) * 0x400 + (v - 0xDC00)) # codePoints us
      else (if isSurrogate u then 0xFFFD else u) # codePoints (v # us))"

definition utf8Bytes :: "nat \<Rightarrow> nat list" where
  "utf8Bytes cp =
     (if cp < 0x80 then [cp]
      else if cp < 0x800 then [0xC0 + cp div 64, 0x80 + cp mod 64]
      else if cp < 0x10000 then [0xE0 + cp div 4096, 0x80 + cp div 64 mod 64, 0x80 + cp mod 64]
      else [0xF0 + cp div 262144, 0x80 + cp div 4096 mod 64, 0x80 + cp div 64 mod 64,
            0x80 + cp mod 64])"

definition bufferFrom :: "units \<Rightarrow> byte list" where
  "bufferFrom us = map of_nat (concat (map utf8Bytes (codePoints us)))"

text \<open>A buffer that does not end inside a UTF-8 sequence: the decoder is idle after it.\<close>

definition endsOnBoundary :: "byte list \<Rightarrow> bool" where
  "endsOnBoundary data = (snd (decodeBytes Idle (map unat data)) = Idle)"

section \<open>JavaScript numbers\<close>

text \<open>
  A Number is an IEEE 754 double: \<open>Fin q\<close> for the finite double of value \<open>q\<close>, the two
  infinities and NaN. The two zeros are one value: the program never divides by a
  zero, and \<open>===\<close>, \<open>||\<close> and the template strings do not tell them apart.
  \<open>fl\<close> rounds an exact value to the nearest double, ties to even.
\<close>

datatype jsnum = NaN | Fin rat | PosInf | NegInf

definition pow2 :: "int \<Rightarrow> rat" where
  "pow2 e = (if 0 \<le> e then 2 ^ nat e else 1 / 2 ^ nat (- e))"

text \<open>\<open>ilog2 x\<close> is the integer part of the binary logarithm of a positive \<open>x\<close>.\<close>

definition ilog2 :: "rat \<Rightarrow> int" where
  "ilog2 x = (let (p, q) = quotient_of x; k = bitlen p - bitlen q
              in if pow2 k \<le> x then k else k - 1)"

definition roundHalfEven :: "rat \<Rightarrow> int" where
  "roundHalfEven x =
     (let f = \<lfloor>x\<rfloor>; r = x - of_int f
      in if r < 1 / 2 then f else if 1 / 2 < r then f + 1 else if even f then f else f + 1)"

definition fl :: "rat \<Rightarrow> jsnum" where
  "fl x =
     (if x = 0 then Fin 0
      else let a = \<bar>x\<bar>;
               e = max (ilog2 a - 52) (- 1074);
               y = of_int (roundHalfEven (a / pow2 e)) * pow2 e
           in if pow2 1024 \<le> y then (if 0 < x then PosInf else NegInf)
              else Fin (if 0 < x then y else - y))"

definition isNaN :: "jsnum \<Rightarrow> bool" where
  "isNaN x = (x = NaN)"

definition js_neg :: "jsnum \<Rightarrow> jsnum" where
  "js_neg x = (case x of NaN \<Rightarrow> NaN | Fin a \<Rightarrow> Fin (- a) | PosInf \<Rightarrow> NegInf | NegInf \<Rightarrow> PosInf)"

fun js_add :: "jsnum \<Rightarrow> jsnum \<Rightarrow> jsnum" where
  "js_add NaN y = NaN"
| "js_add x NaN = NaN"
| "js_add (Fin a) (Fin b) = fl (a + b)"
| "js_add PosInf NegInf = NaN"
| "js_add NegInf PosInf = NaN"
| "js_add PosInf y = PosInf"
| "js_add NegInf y = NegInf"
| "js_add x PosInf = PosInf"
| "js_add x NegInf = NegInf"

definition js_sub :: "jsnum \<Rightarrow> jsnum \<Rightarrow> jsnum" where
  "js_sub x y = js_add x (js_neg y)"

text \<open>The sign of a number, for the products and quotients with an infinity.\<close>

definition js_sign :: "jsnum \<Rightarrow> int" where
  "js_sign x = (case x of NaN \<Rightarrow> 0 | Fin a \<Rightarrow> (if a < 0 then - 1 else if a = 0 then 0 else 1)
                | PosInf \<Rightarrow> 1 | NegInf \<Rightarrow> - 1)"

definition js_mul :: "jsnum \<Rightarrow> jsnum \<Rightarrow> jsnum" where
  "js_mul x y =
     (case (x, y) of
        (NaN, _) \<Rightarrow> NaN
      | (_, NaN) \<Rightarrow> NaN
      | (Fin a, Fin b) \<Rightarrow> fl (a * b)
      | _ \<Rightarrow> (if js_sign x * js_sign y = 0 then NaN
              else if 0 < js_sign x * js_sign y then PosInf else NegInf))"

text \<open>Division by a finite non-zero divisor or an infinity (the program divides by 60 only).\<close>

definition js_div :: "jsnum \<Rightarrow> jsnum \<Rightarrow> jsnum" where
  "js_div x y =
     (case (x, y) of
        (NaN, _) \<Rightarrow> NaN
      | (_, NaN) \<Rightarrow> NaN
      | (Fin a, Fin b) \<Rightarrow> (if b = 0 then (if a = 0 then NaN else if 0 < a then PosInf else NegInf)
                           else fl (a / b))
      | (Fin a, _) \<Rightarrow> Fin 0
      | (_, Fin b) \<Rightarrow> (if 0 < js_sign x * (if b < 0 then - 1 else 1) then PosInf else NegInf)
      | _ \<Rightarrow> NaN)"

definition js_floor :: "jsnum \<Rightarrow> jsnum" where
  "js_floor x = (case x of Fin a \<Rightarrow> Fin (of_int \<lfloor>a\<rfloor>) | _ \<Rightarrow> x)"

text \<open>\<open>Math.round\<close>: the nearest integer, a tie going up.\<close>

definition js_round :: "jsnum \<Rightarrow> jsnum" where
  "js_round x = (case x of Fin a \<Rightarrow> Fin (of_int \<lfloor>a + 1 / 2\<rfloor>) | _ \<Rightarrow> x)"

text \<open>\<open>x || 0\<close> on a number: NaN and zero are falsy.\<close>

definition orZero :: "jsnum \<Rightarrow> jsnum" where
  "orZero x = (if x = NaN \<or> x = Fin 0 then Fin 0 else x)"

definition js_gt :: "jsnum \<Rightarrow> jsnum \<Rightarrow> bool" where
  "js_gt x y =
     (case (x, y) of
        (NaN, _) \<Rightarrow> False
      | (_, NaN) \<Rightarrow> False
      | (Fin a, Fin b) \<Rightarrow> b < a
      | (PosInf, PosInf) \<Rightarrow> False
      | (PosInf, _) \<Rightarrow> True
      | (_, NegInf) \<Rightarrow> x \<noteq> NegInf
      | _ \<Rightarrow> False)"

definition js_ge :: "jsnum \<Rightarrow> jsnum \<Rightarrow> bool" where
  "js_ge x y = (x \<noteq> NaN \<and> y \<noteq> NaN \<and> (x = y \<or> js_gt x y))"

subsection \<open>parseInt and parseFloat\<close>

definition isDigit :: "char \<Rightarrow> bool" where
  "isDigit c = (48 \<le> charCodeAt c \<and> charCodeAt c \<le> 57)"

definition digitsValue :: "string \<Rightarrow> nat" where
  "digitsValue ds = foldl (\<lambda>acc c. 10 * acc + (charCodeAt c - 48)) 0 ds"

text \<open>An optional sign: whether it is a minus, and the text after it.\<close>

definition readSign :: "string \<Rightarrow> bool \<times> string" where
  "readSign s =
     (case s of
        [] \<Rightarrow> (False, [])
      | c # cs \<Rightarrow> (if c = CHR ''-'' then (True, cs) else if c = CHR ''+'' then (False, cs)
                  else (False, s)))"

text \<open>
  \<open>parseInt(s, 10)\<close>: leading white space goes, then a sign, then the longest run of
  decimal digits; NaN when there is none. \<open>undefined\<close> reads as the text "undefined".
\<close>

definition parseInt10 :: "string option \<Rightarrow> jsnum" where
  "parseInt10 arg =
     (case arg of
        None \<Rightarrow> NaN
      | Some s \<Rightarrow>
          (let (neg, t) = readSign (trimStart s); ds = takeWhile isDigit t
           in if ds = [] then NaN
              else fl (if neg then - of_nat (digitsValue ds) else of_nat (digitsValue ds))))"

text \<open>The exponent part of a decimal literal, if the text starts with one.\<close>

definition readExponent :: "string \<Rightarrow> int" where
  "readExponent s =
     (case s of
        [] \<Rightarrow> 0
      | c # cs \<Rightarrow>
          (if c = CHR ''e'' \<or> c = CHR ''E'' then
             (let (neg, t) = readSign cs; ds = takeWhile isDigit t
              in if ds = [] then 0
                 else if neg then - int (digitsValue ds) else int (digitsValue ds))
           else 0))"

definition pow10 :: "int \<Rightarrow> rat" where
  "pow10 e = (if 0 \<le> e then 10 ^ nat e else 1 / 10 ^ nat (- e))"

text \<open>
  \<open>parseFloat(s)\<close>: leading white space goes, then the longest prefix that is a decimal
  literal (sign, \<open>Infinity\<close> or digits with an optional fraction and exponent), rounded
  to a double; NaN when there is none.
\<close>

definition parseFloat :: "string option \<Rightarrow> jsnum" where
  "parseFloat arg =
     (case arg of
        None \<Rightarrow> NaN
      | Some s \<Rightarrow>
          (let (neg, t) = readSign (trimStart s)
           in if startsWith t ''Infinity'' then (if neg then NegInf else PosInf)
              else
                let ds1 = takeWhile isDigit t;
                    r1 = dropWhile isDigit t;
                    hasDot = (r1 \<noteq> [] \<and> hd r1 = CHR ''.'');
                    ds2 = (if hasDot then takeWhile isDigit (tl r1) else []);
                    r2 = (if hasDot then dropWhile isDigit (tl r1) else r1)
                in if ds1 = [] \<and> ds2 = [] then NaN
                   else
                     let m = of_nat (digitsValue ds1)
                           + of_nat (digitsValue ds2) / 10 ^ length ds2;
                         v = m * pow10 (readExponent r2)
                     in fl (if neg then - v else v)))"

section \<open>Checksum verification\<close>

text \<open>The running XOR of the loop in \<open>verifyChecksum\<close>.\<close>

definition xorCodes :: "string \<Rightarrow> nat" where
  "xorCodes payload = foldl (\<lambda>chk c. chk XOR charCodeAt c) 0 payload"

definition checksumHex :: "string \<Rightarrow> string" where
  "checksumHex payload = padStart2 (toUpperCase (toString16 (xorCodes payload)))"

definition verifyChecksum :: "string \<Rightarrow> bool" where
  "verifyChecksum sentence =
     (case indexOf sentence CHR ''*'' of
        None \<Rightarrow> True
      | Some asterisk \<Rightarrow>
          (let payload = take asterisk sentence;
               chkStr = trim (drop (asterisk + 1) sentence)
           in checksumHex payload = toUpperCase chkStr))"

section \<open>Coordinate decoding\<close>

definition nmeaToDecimal :: "string option \<Rightarrow> string option \<Rightarrow> jsnum option" where
  "nmeaToDecimal coord hemi =
     (case coord of
        None \<Rightarrow> None
      | Some c \<Rightarrow>
          if c = [] then None
          else
            (case indexOf c CHR ''.'' of
               None \<Rightarrow> None
             | Some dot \<Rightarrow>
                 (let degLen = (if hemi = Some ''N'' \<or> hemi = Some ''S'' then 2 else 3)
                  in if length c \<le> degLen then None
                     else
                       let degStr = take degLen c;
                           minStr = drop degLen c;
                           deg = parseInt10 (Some degStr);
                           min = parseFloat (Some minStr)
                       in if isNaN deg \<or> isNaN min then None
                          else
                            let val = js_add deg (js_div min (Fin 60))
                            in Some (if hemi = Some ''S'' \<or> hemi = Some ''W''
                                     then js_neg val else val))))"

section \<open>Time stamps\<close>

text \<open>
  The reading of the host clock: \<open>Date.now()\<close> in milliseconds, and the UTC calendar
  fields of \<open>new Date()\<close> (the month counted from 0).
\<close>

record clock =
  nowMs :: int
  utcFullYear :: int
  utcMonth :: int
  utcDate :: int

text \<open>\<open>s.slice(a, b)\<close> for \<open>0 \<le> a \<le> b\<close>, and \<open>s || d\<close> on a string.\<close>

definition slice :: "string \<Rightarrow> nat \<Rightarrow> nat \<Rightarrow> string" where
  "slice s a b = take (b - a) (drop a s)"

definition orElse :: "string \<Rightarrow> string \<Rightarrow> string" where
  "orElse s d = (if s = [] then d else s)"

text \<open>The integer part of a finite number (rounding towards zero).\<close>

definition toInteger :: "rat \<Rightarrow> int" where
  "toInteger a = (if 0 \<le> a then \<lfloor>a\<rfloor> else \<lceil>a\<rceil>)"

text \<open>The day number, counted from 1 January 1970, of the first day of month \<open>m\<close>
  (0 to 11) of year \<open>y\<close> in the proleptic Gregorian calendar.\<close>

definition daysFromCivil :: "int \<Rightarrow> int \<Rightarrow> int" where
  "daysFromCivil y m =
     (let y' = (if m < 2 then y - 1 else y);
          era = y' div 400;
          yoe = y' - era * 400;
          mp = (m + 10) mod 12;
          doy = (153 * mp + 2) div 5;
          doe = yoe * 365 + yoe div 4 - yoe div 100 + doy
      in era * 146097 + doe - 719468)"

definition makeDay :: "jsnum \<Rightarrow> jsnum \<Rightarrow> jsnum \<Rightarrow> int option" where
  "makeDay year month date =
     (case (year, month, date) of
        (Fin y, Fin m, Fin d) \<Rightarrow>
          (let ym = toInteger y + toInteger m div 12; mn = toInteger m mod 12
           in Some (daysFromCivil ym mn + toInteger d - 1))
      | _ \<Rightarrow> None)"

definition makeTime :: "jsnum \<Rightarrow> jsnum \<Rightarrow> jsnum \<Rightarrow> jsnum \<Rightarrow> int option" where
  "makeTime hour minute sec ms =
     (case (hour, minute, sec, ms) of
        (Fin h, Fin m, Fin s, Fin milli) \<Rightarrow>
          Some (toInteger h * 3600000 + toInteger m * 60000 + toInteger s * 1000 + toInteger milli)
      | _ \<Rightarrow> None)"

text \<open>
  \<open>Date.UTC(year, month, day, hours, minutes, seconds, ms)\<close>: a year from 0 to 99 counts
  from 1900, months and days out of range carry over, and a time value beyond
  8.64e15 ms is NaN. The sums are exact integers: within that bound a double holds
  them exactly.
\<close>

definition Date_UTC ::
  "jsnum \<Rightarrow> jsnum \<Rightarrow> jsnum \<Rightarrow> jsnum \<Rightarrow> jsnum \<Rightarrow> jsnum \<Rightarrow> jsnum \<Rightarrow> jsnum" where
  "Date_UTC year month day hh mm ss ms =
     (let yr = (case year of
                  Fin y \<Rightarrow> (if 0 \<le> toInteger y \<and> toInteger y \<le> 99
                            then Fin (of_int (1900 + toInteger y)) else year)
                | _ \<Rightarrow> year)
      in case (makeDay yr month day, makeTime hh mm ss ms) of
           (Some d, Some t) \<Rightarrow>
             (let tv = d * 86400000 + t
              in if 8640000000000000 < \<bar>tv\<bar> then NaN else Fin (of_int tv))
         | _ \<Rightarrow> NaN)"

definition parseNmeaDateTime :: "clock \<Rightarrow> string option \<Rightarrow> string option \<Rightarrow> jsnum option" where
  "parseNmeaDateTime now timeArg dateArg =
     (case timeArg of
        None \<Rightarrow> None
      | Some timeStr \<Rightarrow>
          if timeStr = [] then None
          else
            (let hh = parseInt10 (Some (orElse (slice timeStr 0 2) ''0''));
                 mm = parseInt10 (Some (orElse (slice timeStr 2 4) ''0''));
                 secFloat = parseFloat (Some (orElse (drop 4 timeStr) ''0''));
                 ss = js_floor secFloat;
                 ms = js_round (js_mul (js_sub secFloat ss) (Fin 1000));
                 (year, month, day) =
                   (case dateArg of
                      None \<Rightarrow>
                        (Fin (of_int (utcFullYear now)), Fin (of_int (utcMonth now)),
                         Fin (of_int (utcDate now)))
                    | Some dateStr \<Rightarrow>
                        if dateStr \<noteq> [] \<and> 6 \<le> length dateStr then
                          (let day = parseInt10 (Some (orElse (slice dateStr 0 2) ''1''));
                               month = js_sub (parseInt10 (Some (orElse (slice dateStr 2 4) ''1'')))
                                         (Fin 1);
                               yy = parseInt10 (Some (orElse (slice dateStr 4 6) ''0''));
                               year = (if js_ge yy (Fin 70) then js_add (Fin 1900) yy
                                       else js_add (Fin 2000) yy)
                           in (year, month, day))
                        else
                          (Fin (of_int (utcFullYear now)), Fin (of_int (utcMonth now)),
                           Fin (of_int (utcDate now))))
             in Some (Date_UTC year month day hh mm ss ms)))"

section \<open>The adapter: state and the debounce gate\<close>

text \<open>
  A state value is a boolean, a number or a string. \<open>Joined a b\<close> is the string of the
  template \<open>`${a};${b}`\<close>: the decimal form of a number determines the number, so two
  such strings are equal exactly when the numbers are, and the channels that take
  them take no other value.
\<close>

datatype stateValue = Boolean bool | Number jsnum | String string | Joined jsnum jsnum

text \<open>\<open>a === b\<close>: NaN is not equal to itself.\<close>

definition strictEq :: "stateValue \<Rightarrow> stateValue \<Rightarrow> bool" where
  "strictEq a b = (a = b \<and> a \<noteq> Number NaN)"

record entry =
  val :: stateValue
  ts :: int

text \<open>
  The fields of the adapter object, and what the model keeps of its surroundings:
  \<open>serialPort\<close> is \<open>Some isOpen\<close> while a port object is held; \<open>sink\<close> lists the calls
  \<open>setStateAsync(id, value, true)\<close>, oldest first; \<open>timers\<close> are the timeouts pending in
  the runtime (handle and delay); \<open>parsed\<close> lists the lines handed to \<open>parseData\<close> by
  \<open>processReceivedData\<close>, oldest first; \<open>undecoded\<close> tells that one of these lines had a
  code unit from 256 on (see \<open>parseLine\<close> below).
\<close>

record adapter =
  serialPort :: "bool option"
  reconnectTimer :: "nat option"
  lastStates :: "string \<rightharpoonup> entry"
  recvBuffer :: units
  lastDate :: string
  sink :: "(string \<times> stateValue) list"
  timers :: "(nat \<times> int) list"
  nextHandle :: nat
  parsed :: "units list"
  undecoded :: bool

definition initial :: adapter where
  "initial =
     \<lparr>serialPort = None, reconnectTimer = None, lastStates = Map.empty, recvBuffer = [],
      lastDate = [], sink = [], timers = [], nextHandle = 1, parsed = [],
      undecoded = False\<rparr>"

definition setStateIfChangedAsync :: "clock \<Rightarrow> string \<Rightarrow> stateValue \<Rightarrow> adapter \<Rightarrow> adapter" where
  "setStateIfChangedAsync clk ident v s =
     (let now = nowMs clk;
          prev = lastStates s ident;
          changed = (case prev of None \<Rightarrow> True | Some p \<Rightarrow> \<not> strictEq v (val p))
      in if \<not> changed \<and> (case prev of None \<Rightarrow> False | Some p \<Rightarrow> now - ts p < 60000) then s
         else s\<lparr>lastStates := (lastStates s)(ident \<mapsto> \<lparr>val = v, ts = now\<rparr>),
                sink := sink s @ [(ident, v)]\<rparr>)"

text \<open>A run of gate calls, in order.\<close>

definition applyUpdates :: "clock \<Rightarrow> (string \<times> stateValue) list \<Rightarrow> adapter \<Rightarrow> adapter" where
  "applyUpdates clk us s = foldl (\<lambda>s' (ident, v). setStateIfChangedAsync clk ident v s') s us"

section \<open>Sentence decoding\<close>

text \<open>\<open>fields[i]\<close> (the array is \<open>flds\<close> below): \<open>undefined\<close> beyond the end; and the truthiness of such a value.\<close>

definition field :: "string list \<Rightarrow> nat \<Rightarrow> string option" where
  "field fs i = (if i < length fs then Some (fs ! i) else None)"

definition truthy :: "string option \<Rightarrow> bool" where
  "truthy x = (case x of None \<Rightarrow> False | Some s \<Rightarrow> s \<noteq> [])"

text \<open>\<open>+x.toFixed(2)\<close>: two decimals, a tie of the magnitude going up; from 1e21 on the
  text is the number's own and reads back as it.\<close>

definition toFixed2 :: "jsnum \<Rightarrow> jsnum" where
  "toFixed2 x =
     (case x of
        Fin a \<Rightarrow>
          (if 10 ^ 21 \<le> \<bar>a\<bar> then x
           else let n = \<lfloor>\<bar>a\<bar> * 100 + 1 / 2\<rfloor>
                in fl ((if a < 0 then - 1 else 1) * of_int n / 100))
      | _ \<Rightarrow> x)"

text \<open>
  The calls of the gate that one sentence makes, in the order of the source: each
  \<open>await this.setStateIfChangedAsync(id, value)\<close> is one pair.
\<close>

definition positionUpdates :: "jsnum option \<Rightarrow> jsnum option \<Rightarrow> (string \<times> stateValue) list" where
  "positionUpdates lat lon =
     (case (lat, lon) of
        (Some la, Some lo) \<Rightarrow>
          [(''gps.latitude'', Number la), (''gps.longitude'', Number lo),
           (''gps.position'', Joined lo la), (''gps.latlon'', Joined la lo)]
      | _ \<Rightarrow> [])"

definition ggaUpdates :: "clock \<Rightarrow> string \<Rightarrow> string list \<Rightarrow> (string \<times> stateValue) list" where
  "ggaUpdates clk carried flds =
     (let timeStr = field flds 1;
          lat = nmeaToDecimal (field flds 2) (field flds 3);
          lon = nmeaToDecimal (field flds 4) (field flds 5);
          fix = orZero (parseInt10 (field flds 6));
          sats = orZero (parseInt10 (field flds 7));
          hdop = orZero (parseFloat (field flds 8));
          alt = orZero (parseFloat (field flds 9))
      in (if truthy timeStr then
            (case parseNmeaDateTime clk timeStr (if carried = [] then None else Some carried) of
               Some t \<Rightarrow> [(''gps.timestamp'', Number t)]
             | None \<Rightarrow> [])
          else [])
         @ (if \<not> isNaN fix then [(''gps.fix_quality'', Number fix)] else [])
         @ positionUpdates lat lon
         @ [(''gps.satellites'', Number sats), (''gps.hdop'', Number hdop),
            (''gps.altitude'', Number alt),
            (''info.connection'', Boolean (js_gt fix (Fin 0)))])"

definition rmcUpdates :: "clock \<Rightarrow> string list \<Rightarrow> (string \<times> stateValue) list" where
  "rmcUpdates clk flds =
     (let timeStr = field flds 1;
          status = field flds 2;
          lat = nmeaToDecimal (field flds 3) (field flds 4);
          lon = nmeaToDecimal (field flds 5) (field flds 6);
          speedKnots = orZero (parseFloat (field flds 7));
          course = orZero (parseFloat (field flds 8));
          dateStr = field flds 9;
          speedKmh = toFixed2 (js_mul speedKnots (fl (1852 / 1000)))
      in (case dateStr of
            Some d \<Rightarrow> (if d \<noteq> [] then [(''gps.date'', String d)] else [])
          | None \<Rightarrow> [])
         @ (case parseNmeaDateTime clk timeStr dateStr of
              Some t \<Rightarrow> [(''gps.timestamp'', Number t)]
            | None \<Rightarrow> [])
         @ positionUpdates lat lon
         @ [(''gps.speed_knots'', Number speedKnots), (''gps.speed_kmh'', Number speedKmh),
            (''gps.course'', Number course),
            (''info.connection'', Boolean (status = Some ''A''))])"

definition gsaUpdates :: "string list \<Rightarrow> (string \<times> stateValue) list" where
  "gsaUpdates flds =
     (let fixMode = (case field flds 2 of None \<Rightarrow> [] | Some m \<Rightarrow> m);
          pdop = orZero (parseFloat (field flds 15));
          hdop = orZero (parseFloat (field flds 16));
          vdop = orZero (parseFloat (field flds 17));
          fixModeLabel = (if fixMode = ''2'' then ''2D'' else if fixMode = ''3'' then ''3D''
                          else fixMode)
      in [(''gps.fix_mode'', String fixModeLabel), (''gps.pdop'', Number pdop),
          (''gps.hdop'', Number hdop), (''gps.vdop'', Number vdop)])"

text \<open>
  The part of the loop body of \<open>parseData\<close> after the checksum: the dispatch on the
  sentence type. Nothing in it throws (a missing field is \<open>undefined\<close>, which every
  parser here accepts), and the sink is taken not to fail, so the \<open>catch\<close> is not
  reached. An RMC sentence stores its date before its first gate call.
\<close>

definition decodeBody :: "clock \<Rightarrow> string \<Rightarrow> adapter \<Rightarrow> adapter" where
  "decodeBody clk body s =
     (let payload = (case indexOf body CHR ''*'' of Some i \<Rightarrow> take i body | None \<Rightarrow> body);
          flds = split CHR '','' payload
      in case field flds 0 of
           None \<Rightarrow> s
         | Some type \<Rightarrow>
             if endsWith type ''GGA'' then applyUpdates clk (ggaUpdates clk (lastDate s) flds) s
             else if endsWith type ''RMC'' then
               applyUpdates clk (rmcUpdates clk flds)
                 (if truthy (field flds 9)
                  then s\<lparr>lastDate := (case field flds 9 of Some d \<Rightarrow> d | None \<Rightarrow> [])\<rparr>
                  else s)
             else if endsWith type ''GSA'' then applyUpdates clk (gsaUpdates flds) s
             else s)"

text \<open>One turn of the loop of \<open>parseData\<close>.\<close>

definition parseSentence :: "clock \<Rightarrow> string \<Rightarrow> adapter \<Rightarrow> adapter" where
  "parseSentence clk raw s =
     (let sentence = (if startsWith raw ''$'' then raw else ''$'' @ raw);
          s1 = trim (removeNewlines sentence)
      in if \<not> startsWith s1 ''$'' then s
         else let body = drop 1 s1
              in if \<not> verifyChecksum body then s else decodeBody clk body s)"

definition parts :: "string \<Rightarrow> string list" where
  "parts text = filter (\<lambda>p. 0 < length p) (map trim (split CHR ''$'' text))"

definition parseData :: "clock \<Rightarrow> string \<Rightarrow> adapter \<Rightarrow> adapter" where
  "parseData clk text s = foldl (\<lambda>s' raw. parseSentence clk raw s') s (parts text)"

section \<open>Framing\<close>

text \<open>The decoder touches neither the receive buffer nor the list of lines handed to it.\<close>

definition framing :: "adapter \<Rightarrow> units \<times> units list" where
  "framing s = (recvBuffer s, parsed s)"

lemma framing_gate: "framing (setStateIfChangedAsync clk ident v s) = framing s"
  by (simp add: setStateIfChangedAsync_def framing_def Let_def)

lemma framing_applyUpdates: "framing (applyUpdates clk us s) = framing s"
  unfolding applyUpdates_def
  by (induction us arbitrary: s) (simp_all add: framing_gate split: prod.splits)

lemma framing_decodeBody: "framing (decodeBody clk body s) = framing s"
  by (simp add: decodeBody_def Let_def framing_applyUpdates split: option.splits)
    (simp add: framing_def)

lemma framing_parseSentence: "framing (parseSentence clk raw s) = framing s"
  by (simp add: parseSentence_def Let_def framing_decodeBody)

lemma framing_parseSentences:
  "framing (foldl (\<lambda>s' raw. parseSentence clk raw s') s ps) = framing s"
  by (induction ps arbitrary: s) (simp_all add: framing_parseSentence)

lemma framing_parseData: "framing (parseData clk line s) = framing s"
  by (simp add: parseData_def framing_parseSentences)

text \<open>
  The call \<open>this.parseData(line)\<close> of \<open>processReceivedData\<close>, whose line is a string of any
  code units. The decoder above reads the strings with code units below 256. A line
  with a larger code unit (U+FFFD from bytes that are not UTF-8, say) goes to
  \<open>parseData\<close> as well, and is listed in \<open>parsed\<close>; what the program decodes from it
  depends on what \<open>trim\<close> and \<open>toUpperCase\<close> do beyond 256, which is a matter of the
  Unicode tables, and is not followed here: the model raises \<open>undecoded\<close>, and from then
  on \<open>lastStates\<close>, \<open>lastDate\<close> and \<open>sink\<close> say nothing about the program. The buffer, the
  lines handed over, the port and the timer are not touched by \<open>parseData\<close> whatever the
  line is, and seven-bit input never raises the flag (\<open>sevenBit_decoded\<close> below).
\<close>

definition parseLine :: "clock \<Rightarrow> units \<Rightarrow> adapter \<Rightarrow> adapter" where
  "parseLine clk line s =
     (case narrow line of
        Some t \<Rightarrow> parseData clk t s
      | None \<Rightarrow> s\<lparr>undecoded := True\<rparr>)"

lemma framing_parseLine: "framing (parseLine clk line s) = framing s"
  by (simp add: parseLine_def framing_parseData split: option.splits) (simp add: framing_def)

lemma recvBuffer_parseLine: "recvBuffer (parseLine clk line s) = recvBuffer s"
  using framing_parseLine[of clk line s] by (simp add: framing_def)

lemma parsed_parseLine: "parsed (parseLine clk line s) = parsed s"
  using framing_parseLine[of clk line s] by (simp add: framing_def)

lemma indexOf_less: "indexOf b c = Some i \<Longrightarrow> i < length b"
  by (induction b arbitrary: i) (auto split: if_splits)

text \<open>
  The loop of \<open>processReceivedData\<close>: while the buffer holds a line feed, the line up to
  and with it leaves the buffer and goes to \<open>parseData\<close>.
\<close>

function drainLines :: "clock \<Rightarrow> adapter \<Rightarrow> adapter" where
  "drainLines clk s =
     (case indexOf (recvBuffer s) 0x0A of
        None \<Rightarrow> s
      | Some idx \<Rightarrow>
          (let line = take (idx + 1) (recvBuffer s);
               s1 = s\<lparr>recvBuffer := drop (idx + 1) (recvBuffer s), parsed := parsed s @ [line]\<rparr>
           in drainLines clk (parseLine clk line s1)))"
  by pat_completeness auto
termination
proof (relation "measure (\<lambda>(clk, s). length (recvBuffer s))")
  show "wf (measure (\<lambda>(clk, s). length (recvBuffer s)))"
    by simp
next
  fix clk :: clock and s :: adapter and idx line s1
  assume found: "indexOf (recvBuffer s) 0x0A = Some idx"
    and "line = take (idx + 1) (recvBuffer s)"
    and s1: "s1 = s\<lparr>recvBuffer := drop (idx + 1) (recvBuffer s), parsed := parsed s @ [line]\<rparr>"
  from found have "idx < length (recvBuffer s)"
    by (rule indexOf_less)
  with s1 show "((clk, parseLine clk line s1), (clk, s)) \<in> measure (\<lambda>(clk, s). length (recvBuffer s))"
    by (simp add: recvBuffer_parseLine)
qed

declare drainLines.simps [simp del]

text \<open>
  \<open>processReceivedData\<close>: the bytes of this one chunk are decoded on their own, the text
  goes to the end of the buffer, and the complete lines are taken off its front.
\<close>

definition processReceivedData :: "clock \<Rightarrow> byte list \<Rightarrow> adapter \<Rightarrow> adapter" where
  "processReceivedData clk data s =
     (let chunk = toStringUtf8 data
      in drainLines clk (s\<lparr>recvBuffer := recvBuffer s @ chunk\<rparr>))"

text \<open>
  The lines of a text that end in a line feed, in order, and what follows the last of
  them: \<open>framed cur t\<close> with the line begun so far in \<open>cur\<close>.
\<close>

fun framed :: "units \<Rightarrow> units \<Rightarrow> units list \<times> units" where
  "framed cur [] = ([], cur)"
| "framed cur (c # cs) =
     (if c = 0x0A then (case framed [] cs of (ls, r) \<Rightarrow> ((cur @ [c]) # ls, r))
      else framed (cur @ [c]) cs)"

definition linesOf :: "units \<Rightarrow> units list" where
  "linesOf t = fst (framed [] t)"

definition remainderOf :: "units \<Rightarrow> units" where
  "remainderOf t = snd (framed [] t)"

section \<open>Transport events and the reconnect timer\<close>

text \<open>
  The statement \<^verbatim>\<open>this.reconnectTimer ||= setTimeout(..., 5000)\<close>: a timeout is created
  only when the field holds none.
\<close>

definition scheduleReconnect :: "adapter \<Rightarrow> adapter" where
  "scheduleReconnect s =
     (case reconnectTimer s of
        Some h \<Rightarrow> s
      | None \<Rightarrow>
          s\<lparr>reconnectTimer := Some (nextHandle s),
            timers := timers s @ [(nextHandle s, 5000)],
            nextHandle := nextHandle s + 1\<rparr>)"

text \<open>The timeout held in the field, if any, is cleared and the field set to \<open>null\<close>.\<close>

definition clearReconnect :: "adapter \<Rightarrow> adapter" where
  "clearReconnect s =
     (case reconnectTimer s of
        None \<Rightarrow> s
      | Some h \<Rightarrow> s\<lparr>timers := filter (\<lambda>t. fst t \<noteq> h) (timers s), reconnectTimer := None\<rparr>)"

text \<open>
  \<open>closePort\<close>: an open port is asked to close and stays in the field, closed when the
  promise resolves (its \<open>close\<close> event is an event of its own); a port that is not open
  is dropped.
\<close>

definition closePort :: "adapter \<Rightarrow> adapter" where
  "closePort s =
     (case serialPort s of
        None \<Rightarrow> s
      | Some isOpen \<Rightarrow> (if isOpen then s\<lparr>serialPort := Some False\<rparr> else s\<lparr>serialPort := None\<rparr>))"

text \<open>What the serial library does when \<open>openPort\<close> builds and opens the port.\<close>

datatype portOutcome = Throws | OpenFails | Opens

definition openPort :: "clock \<Rightarrow> portOutcome \<Rightarrow> adapter \<Rightarrow> adapter" where
  "openPort clk outcome s =
     (let s1 = closePort s
      in if outcome = Throws then
           scheduleReconnect (setStateIfChangedAsync clk ''info.connection'' (Boolean False) s1)
         else s1\<lparr>serialPort := Some (outcome = Opens)\<rparr>)"

text \<open>
  The events the adapter reacts to: the \<open>ready\<close> callback (\<open>main\<close>), data, error and
  close of the serial port, a UDP datagram, the reconnect timeout with the given
  handle running out (with what \<open>openPort\<close> then meets), the two halves of a \<open>test\<close> or
  \<open>detectBaudRate\<close> command for the configured port (\<open>closePort\<close> before the probe,
  \<open>openPort\<close> after it), and the unload of the adapter. The data events carry the bytes
  of the chunk or datagram. The serial library keeps \<open>isOpen\<close>: a port that emits \<open>close\<close>
  is no longer open, and the error event carries whether the port is still open
  after it.

  Each handler is taken to run to its end before the next event. The handlers are
  \<open>async\<close> and give way at every \<open>await\<close>; what the theorems below read is settled between
  two of them: the test and the assignment of \<^verbatim>\<open>||=\<close> are one statement, the timer is
  cleared before the first \<open>await\<close> of the data handler, and a line is cut off the buffer
  in the statements that follow the \<open>indexOf\<close> that found it.
\<close>

datatype event =
    Ready portOutcome
  | SerialData "byte list"
  | SerialError bool
  | SerialClose
  | UdpMessage "byte list"
  | TimerFired nat portOutcome
  | ProbeClose
  | ProbeReopen portOutcome
  | Unload

fun step :: "clock \<Rightarrow> event \<Rightarrow> adapter \<Rightarrow> adapter" where
  "step clk (Ready outcome) s =
     openPort clk outcome (s\<lparr>sink := sink s @ [(''info.connection'', Boolean False)]\<rparr>)"
| "step clk (SerialData data) s = processReceivedData clk data (clearReconnect s)"
| "step clk (SerialError stillOpen) s =
     scheduleReconnect
       (setStateIfChangedAsync clk ''info.connection'' (Boolean False)
          (s\<lparr>serialPort := map_option (\<lambda>isOpen. isOpen \<and> stillOpen) (serialPort s)\<rparr>))"
| "step clk SerialClose s =
     scheduleReconnect
       (setStateIfChangedAsync clk ''info.connection'' (Boolean False)
          (s\<lparr>serialPort := map_option (\<lambda>isOpen. False) (serialPort s)\<rparr>))"
| "step clk (UdpMessage data) s =
     processReceivedData clk (bufferFrom (toStringUtf8 data @ [0x0A]))
       (setStateIfChangedAsync clk ''info.connection'' (Boolean True) s)"
| "step clk (TimerFired h outcome) s =
     (if h \<in> fst ` set (timers s) then
        openPort clk outcome
          (s\<lparr>timers := filter (\<lambda>t. fst t \<noteq> h) (timers s), reconnectTimer := None\<rparr>)
      else s)"
| "step clk ProbeClose s = closePort s"
| "step clk (ProbeReopen outcome) s = openPort clk outcome s"
| "step clk Unload s = closePort (clearReconnect s)"

text \<open>A run: the events in order, each with the clock reading at which it is handled.\<close>

definition run :: "(clock \<times> event) list \<Rightarrow> adapter \<Rightarrow> adapter" where
  "run evs s = foldl (\<lambda>s' (clk, ev). step clk ev s') s evs"

section \<open>What the decoder leaves alone\<close>

text \<open>The fields of the transport: the port, the timer field, the pending timeouts.\<close>

definition transport :: "adapter \<Rightarrow> bool option \<times> nat option \<times> (nat \<times> int) list \<times> nat" where
  "transport s = (serialPort s, reconnectTimer s, timers s, nextHandle s)"

lemma transport_gate: "transport (setStateIfChangedAsync clk ident v s) = transport s"
  by (simp add: setStateIfChangedAsync_def transport_def Let_def)

lemma transport_applyUpdates: "transport (applyUpdates clk us s) = transport s"
  unfolding applyUpdates_def
  by (induction us arbitrary: s) (simp_all add: transport_gate split: prod.splits)

lemma transport_decodeBody: "transport (decodeBody clk body s) = transport s"
  by (simp add: decodeBody_def Let_def transport_applyUpdates split: option.splits)
    (simp add: transport_def)

lemma transport_parseSentence: "transport (parseSentence clk raw s) = transport s"
  by (simp add: parseSentence_def Let_def transport_decodeBody)

lemma transport_parseSentences:
  "transport (foldl (\<lambda>s' raw. parseSentence clk raw s') s ps) = transport s"
  by (induction ps arbitrary: s) (simp_all add: transport_parseSentence)

lemma transport_parseData: "transport (parseData clk line s) = transport s"
  by (simp add: parseData_def transport_parseSentences)

lemma transport_parseLine: "transport (parseLine clk line s) = transport s"
  by (simp add: parseLine_def transport_parseData split: option.splits) (simp add: transport_def)

lemma transport_drainLines: "transport (drainLines clk s) = transport s"
proof (induction clk s rule: drainLines.induct)
  case (1 clk s)
  show ?case
  proof (cases "indexOf (recvBuffer s) 0x0A")
    case None
    then show ?thesis by (simp add: drainLines.simps[of clk s])
  next
    case (Some idx)
    then show ?thesis
      using "1.IH"[OF Some refl refl]
      by (simp add: drainLines.simps[of clk s] Let_def transport_parseLine) (simp add: transport_def)
  qed
qed

lemma transport_processReceivedData: "transport (processReceivedData clk chunk s) = transport s"
  unfolding processReceivedData_def Let_def transport_drainLines
  by (simp add: transport_def)

section \<open>The reconnect timer\<close>

text \<open>The pending timeouts are exactly what the timer field holds, with the 5 second delay.\<close>

definition timerInv :: "adapter \<Rightarrow> bool" where
  "timerInv s = (timers s = (case reconnectTimer s of None \<Rightarrow> [] | Some h \<Rightarrow> [(h, 5000)]))"

lemma timerInv_transport: "transport s' = transport s \<Longrightarrow> timerInv s' = timerInv s"
  by (simp add: transport_def timerInv_def)

lemma timerInv_scheduleReconnect: "timerInv s \<Longrightarrow> timerInv (scheduleReconnect s)"
  by (auto simp: timerInv_def scheduleReconnect_def split: option.splits)

lemma timerInv_clearReconnect: "timerInv s \<Longrightarrow> timerInv (clearReconnect s)"
  by (auto simp: timerInv_def clearReconnect_def split: option.splits)

lemma timerInv_closePort: "timerInv (closePort s) = timerInv s"
  by (auto simp: timerInv_def closePort_def split: option.splits)

lemma timerInv_openPort: "timerInv s \<Longrightarrow> timerInv (openPort clk outcome s)"
proof -
  assume inv: "timerInv s"
  then have c: "timerInv (closePort s)"
    by (simp add: timerInv_closePort)
  show ?thesis
  proof (cases "outcome = Throws")
    case True
    with c show ?thesis
      by (simp add: openPort_def Let_def timerInv_scheduleReconnect
          timerInv_transport[OF transport_gate])
  next
    case False
    with c show ?thesis
      by (simp add: openPort_def Let_def timerInv_def)
  qed
qed

lemma timerInv_step: "timerInv s \<Longrightarrow> timerInv (step clk ev s)"
proof (cases ev)
  case (Ready outcome)
  assume "timerInv s"
  then have "timerInv (s\<lparr>sink := sink s @ [(''info.connection'', Boolean False)]\<rparr>)"
    by (simp add: timerInv_def)
  with Ready show "timerInv (step clk ev s)"
    by (simp add: timerInv_openPort)
next
  case ProbeClose
  then show "timerInv s \<Longrightarrow> timerInv (step clk ev s)"
    by (simp add: timerInv_closePort)
next
  case (ProbeReopen outcome)
  then show "timerInv s \<Longrightarrow> timerInv (step clk ev s)"
    by (simp add: timerInv_openPort)
next
  case (SerialData d)
  then show "timerInv s \<Longrightarrow> timerInv (step clk ev s)"
    by (simp add: timerInv_transport[OF transport_processReceivedData] timerInv_clearReconnect)
next
  case (SerialError stillOpen)
  have "timerInv (s\<lparr>serialPort := p\<rparr>) = timerInv s" for p
    by (simp add: timerInv_def)
  with SerialError show "timerInv s \<Longrightarrow> timerInv (step clk ev s)"
    by (simp add: timerInv_scheduleReconnect timerInv_transport[OF transport_gate])
next
  case SerialClose
  have "timerInv (s\<lparr>serialPort := p\<rparr>) = timerInv s" for p
    by (simp add: timerInv_def)
  with SerialClose show "timerInv s \<Longrightarrow> timerInv (step clk ev s)"
    by (simp add: timerInv_scheduleReconnect timerInv_transport[OF transport_gate])
next
  case (UdpMessage d)
  then show "timerInv s \<Longrightarrow> timerInv (step clk ev s)"
    by (simp add: timerInv_transport[OF transport_processReceivedData] timerInv_transport[OF transport_gate])
next
  case (TimerFired h outcome)
  assume inv: "timerInv s"
  show "timerInv (step clk ev s)"
  proof (cases "h \<in> fst ` set (timers s)")
    case True
    with inv have "timerInv (s\<lparr>timers := filter (\<lambda>t. fst t \<noteq> h) (timers s), reconnectTimer := None\<rparr>)"
      by (auto simp: timerInv_def split: option.splits)
    with True TimerFired show ?thesis by (simp add: timerInv_openPort)
  next
    case False
    with inv TimerFired show ?thesis by simp
  qed
next
  case Unload
  then show "timerInv s \<Longrightarrow> timerInv (step clk ev s)"
    by (simp add: timerInv_closePort timerInv_clearReconnect)
qed

lemma timerInv_run: "timerInv s \<Longrightarrow> timerInv (run evs s)"
  unfolding run_def
  by (induction evs arbitrary: s) (auto simp: timerInv_step)

lemma timerInv_initial: "timerInv initial"
  by (simp add: timerInv_def initial_def)

lemma timers_gate: "timers (setStateIfChangedAsync clk ident v s) = timers s"
  and nextHandle_gate: "nextHandle (setStateIfChangedAsync clk ident v s) = nextHandle s"
  and reconnectTimer_gate: "reconnectTimer (setStateIfChangedAsync clk ident v s) = reconnectTimer s"
  using transport_gate[of clk ident v s] by (simp_all add: transport_def)

lemma timers_close_event:
  assumes "timerInv s"
  shows "timers (step clk SerialClose s) = (if timers s = [] then [(nextHandle s, 5000)] else timers s)"
  using assms
  by (auto simp: timerInv_def scheduleReconnect_def timers_gate nextHandle_gate reconnectTimer_gate
      split: option.splits)

lemma timers_error_event:
  assumes "timerInv s"
  shows "timers (step clk (SerialError stillOpen) s)
           = (if timers s = [] then [(nextHandle s, 5000)] else timers s)"
  using assms
  by (auto simp: timerInv_def scheduleReconnect_def timers_gate nextHandle_gate reconnectTimer_gate
      split: option.splits)

lemma timers_data_event:
  assumes "timerInv s"
  shows "timers (step clk (SerialData d) s) = [] \<and> reconnectTimer (step clk (SerialData d) s) = None"
proof -
  have "transport (step clk (SerialData d) s) = transport (clearReconnect s)"
    by (simp add: transport_processReceivedData)
  moreover from assms have "timers (clearReconnect s) = [] \<and> reconnectTimer (clearReconnect s) = None"
    by (auto simp: timerInv_def clearReconnect_def split: option.splits)
  ultimately show ?thesis
    by (simp add: transport_def)
qed

text \<open>
  Claim C6. After any run of events from the initial state, at most one timeout is
  pending, and it is the one the timer field holds, with the delay of 5000 ms. A close
  or an error event creates a timeout only when none is pending, so a second close
  event changes nothing and exactly one is pending after two of them; a data event of
  the serial port leaves none pending and the field empty.
\<close>


theorem reconnect_timer_single:
  "let s = run evs initial;
       s1 = step clk SerialClose s;
       s2 = step clk' SerialClose s1
   in length (timers s) \<le> 1
      \<and> timers s = (case reconnectTimer s of None \<Rightarrow> [] | Some h \<Rightarrow> [(h, 5000)])
      \<and> timers s1 = (if timers s = [] then [(nextHandle s, 5000)] else timers s)
      \<and> timers (step clk (SerialError stillOpen) s)
          = (if timers s = [] then [(nextHandle s, 5000)] else timers s)
      \<and> length (timers s1) = 1
      \<and> timers s2 = timers s1
      \<and> timers (step clk (SerialData d) s) = []
      \<and> reconnectTimer (step clk (SerialData d) s) = None"
proof -
  let ?s = "run evs initial"
  let ?s1 = "step clk SerialClose ?s"
  have inv: "timerInv ?s"
    by (rule timerInv_run[OF timerInv_initial])
  then have inv1: "timerInv ?s1"
    by (rule timerInv_step)
  from inv have one: "timers ?s = (case reconnectTimer ?s of None \<Rightarrow> [] | Some h \<Rightarrow> [(h, 5000)])"
    by (simp add: timerInv_def)
  then have le: "length (timers ?s) \<le> 1"
    by (simp split: option.splits)
  have c1: "timers ?s1 = (if timers ?s = [] then [(nextHandle ?s, 5000)] else timers ?s)"
    by (rule timers_close_event[OF inv])
  with le have len1: "length (timers ?s1) = 1"
    by (cases "timers ?s") auto
  have c2: "timers (step clk' SerialClose ?s1) = timers ?s1"
    using timers_close_event[OF inv1, of clk'] len1 by auto
  note e = timers_error_event[OF inv, of clk stillOpen]
  note d = timers_data_event[OF inv, of clk d]
  show ?thesis
    unfolding Let_def using one le c1 len1 c2 e d by blast
qed

section \<open>The debounce gate\<close>

text \<open>A clock reading at a given millisecond, on 3 November 2026.\<close>

definition clockAt :: "int \<Rightarrow> clock" where
  "clockAt t = \<lparr>nowMs = t, utcFullYear = 2026, utcMonth = 10, utcDate = 3\<rparr>"

lemma gate_decision:
  "setStateIfChangedAsync clk ident v s =
     (if (case lastStates s ident of
            None \<Rightarrow> True
          | Some p \<Rightarrow> \<not> strictEq v (val p) \<or> 60000 \<le> nowMs clk - ts p)
      then s\<lparr>lastStates := (lastStates s)(ident \<mapsto> \<lparr>val = v, ts = nowMs clk\<rparr>),
             sink := sink s @ [(ident, v)]\<rparr>
      else s)"
  by (auto simp: setStateIfChangedAsync_def Let_def split: option.splits)

lemma keys_gate: "dom (lastStates s) \<subseteq> dom (lastStates (setStateIfChangedAsync clk ident v s))"
  by (auto simp: gate_decision)

lemma keys_applyUpdates: "dom (lastStates s) \<subseteq> dom (lastStates (applyUpdates clk us s))"
  unfolding applyUpdates_def
proof (induction us arbitrary: s)
  case Nil
  show ?case by simp
next
  case (Cons u us)
  obtain i v where u: "u = (i, v)" by (cases u)
  have "dom (lastStates s) \<subseteq> dom (lastStates (setStateIfChangedAsync clk i v s))"
    by (rule keys_gate)
  also have "\<dots> \<subseteq> dom (lastStates (foldl (\<lambda>s' (ident, v). setStateIfChangedAsync clk ident v s')
      (setStateIfChangedAsync clk i v s) us))"
    by (rule Cons.IH)
  finally show ?case by (simp add: u)
qed

lemma keys_decodeBody: "dom (lastStates s) \<subseteq> dom (lastStates (decodeBody clk body s))"
proof -
  have a: "dom (lastStates s) \<subseteq> dom (lastStates (applyUpdates clk us (s\<lparr>lastDate := d\<rparr>)))" for us d
    using keys_applyUpdates[of "s\<lparr>lastDate := d\<rparr>" clk us] by simp
  show ?thesis
    by (simp add: decodeBody_def Let_def keys_applyUpdates a split: option.splits)
qed

lemma keys_parseSentence: "dom (lastStates s) \<subseteq> dom (lastStates (parseSentence clk raw s))"
  by (simp add: parseSentence_def Let_def keys_decodeBody)

lemma keys_parseSentences:
  "dom (lastStates s) \<subseteq> dom (lastStates (foldl (\<lambda>s' raw. parseSentence clk raw s') s ps))"
proof (induction ps arbitrary: s)
  case Nil
  show ?case by simp
next
  case (Cons p ps)
  from keys_parseSentence[of s clk p] Cons.IH[of "parseSentence clk p s"]
  show ?case by (simp add: subset_iff)
qed

lemma keys_parseData: "dom (lastStates s) \<subseteq> dom (lastStates (parseData clk line s))"
  by (simp add: parseData_def keys_parseSentences)

lemma keys_parseLine: "dom (lastStates s) \<subseteq> dom (lastStates (parseLine clk line s))"
  by (simp add: parseLine_def keys_parseData split: option.splits)

lemma keys_drainLines: "dom (lastStates s) \<subseteq> dom (lastStates (drainLines clk s))"
proof (induction clk s rule: drainLines.induct)
  case (1 clk s)
  show ?case
  proof (cases "indexOf (recvBuffer s) 0x0A")
    case None
    then show ?thesis by (simp add: drainLines.simps[of clk s])
  next
    case (Some idx)
    let ?line = "take (idx + 1) (recvBuffer s)"
    let ?s1 = "s\<lparr>recvBuffer := drop (idx + 1) (recvBuffer s), parsed := parsed s @ [?line]\<rparr>"
    have "dom (lastStates s) \<subseteq> dom (lastStates (parseLine clk ?line ?s1))"
      using keys_parseLine[of ?s1 clk ?line] by simp
    also have "\<dots> \<subseteq> dom (lastStates (drainLines clk (parseLine clk ?line ?s1)))"
      by (rule "1.IH"[OF Some refl refl])
    finally show ?thesis
      using Some by (simp add: drainLines.simps[of clk s] Let_def)
  qed
qed

lemma keys_processReceivedData:
  "dom (lastStates s) \<subseteq> dom (lastStates (processReceivedData clk chunk s))"
  using keys_drainLines[of "s\<lparr>recvBuffer := recvBuffer s @ toStringUtf8 chunk\<rparr>" clk]
  by (simp add: processReceivedData_def)

lemma lastStates_scheduleReconnect: "lastStates (scheduleReconnect s) = lastStates s"
  by (simp add: scheduleReconnect_def split: option.splits)

lemma lastStates_clearReconnect: "lastStates (clearReconnect s) = lastStates s"
  by (simp add: clearReconnect_def split: option.splits)

lemma lastStates_closePort: "lastStates (closePort s) = lastStates s"
  by (simp add: closePort_def split: option.splits)

lemma keys_openPort: "dom (lastStates s) \<subseteq> dom (lastStates (openPort clk outcome s))"
  using keys_gate[of "closePort s" clk "''info.connection''" "Boolean False"]
  by (simp add: openPort_def Let_def lastStates_scheduleReconnect lastStates_closePort)

lemma keys_step: "dom (lastStates s) \<subseteq> dom (lastStates (step clk ev s))"
proof (cases ev)
  case (Ready outcome)
  then show ?thesis
    using keys_openPort[of "s\<lparr>sink := sink s @ [(''info.connection'', Boolean False)]\<rparr>" clk outcome]
    by simp
next
  case ProbeClose
  then show ?thesis by (simp add: lastStates_closePort)
next
  case (ProbeReopen outcome)
  then show ?thesis by (simp add: keys_openPort)
next
  case (SerialData d)
  then show ?thesis
    using keys_processReceivedData[of "clearReconnect s" clk d]
    by (simp add: lastStates_clearReconnect)
next
  case (SerialError stillOpen)
  then show ?thesis
    using keys_gate[of "s\<lparr>serialPort := map_option (\<lambda>isOpen. isOpen \<and> stillOpen) (serialPort s)\<rparr>"
        clk "''info.connection''" "Boolean False"]
    by (simp add: lastStates_scheduleReconnect)
next
  case SerialClose
  then show ?thesis
    using keys_gate[of "s\<lparr>serialPort := map_option (\<lambda>isOpen. False) (serialPort s)\<rparr>"
        clk "''info.connection''" "Boolean False"]
    by (simp add: lastStates_scheduleReconnect)
next
  case (UdpMessage d)
  have "dom (lastStates s) \<subseteq> dom (lastStates (setStateIfChangedAsync clk ''info.connection'' (Boolean True) s))"
    by (rule keys_gate)
  also have "\<dots> \<subseteq> dom (lastStates (step clk (UdpMessage d) s))"
    by (simp add: keys_processReceivedData)
  finally show ?thesis using UdpMessage by simp
next
  case (TimerFired h outcome)
  then show ?thesis
    using keys_openPort[of "s\<lparr>timers := filter (\<lambda>t. fst t \<noteq> h) (timers s), reconnectTimer := None\<rparr>" clk outcome]
    by simp
next
  case Unload
  then show ?thesis by (simp add: lastStates_closePort lastStates_clearReconnect)
qed

lemma keys_run: "dom (lastStates s) \<subseteq> dom (lastStates (run evs s))"
  unfolding run_def
proof (induction evs arbitrary: s)
  case Nil
  show ?case by simp
next
  case (Cons e evs)
  obtain clk ev where e: "e = (clk, ev)" by (cases e)
  from keys_step[of s clk ev] Cons.IH[of "step clk ev s"]
  show ?case by (simp add: e subset_iff)
qed

text \<open>
  Claim C9, as amended. A call of the gate for a channel that has no entry creates the
  entry with the value and the time of the call. A call that forwards (the sink grows,
  by exactly this call) sets the entry to the value and the time of the call; a call
  that is suppressed leaves the whole state as it was, the entry and its time stamp
  included. The entries of all other channels are as before, and no entry is ever
  removed, by the gate or by any run of events.
\<close>

theorem gate_cache_frame:
  "(lastStates s ident = None \<longrightarrow>
      lastStates (setStateIfChangedAsync clk ident v s) ident = Some \<lparr>val = v, ts = nowMs clk\<rparr>)
   \<and> (sink (setStateIfChangedAsync clk ident v s) \<noteq> sink s \<longrightarrow>
        sink (setStateIfChangedAsync clk ident v s) = sink s @ [(ident, v)]
        \<and> lastStates (setStateIfChangedAsync clk ident v s) ident = Some \<lparr>val = v, ts = nowMs clk\<rparr>)
   \<and> (sink (setStateIfChangedAsync clk ident v s) = sink s \<longrightarrow>
        setStateIfChangedAsync clk ident v s = s)
   \<and> (other \<noteq> ident \<longrightarrow>
        lastStates (setStateIfChangedAsync clk ident v s) other = lastStates s other)
   \<and> dom (lastStates s) \<subseteq> dom (lastStates (setStateIfChangedAsync clk ident v s))
   \<and> dom (lastStates s) \<subseteq> dom (lastStates (run evs s))"
  using keys_run[of s evs] keys_gate[of s clk ident v]
  by (auto simp: gate_decision)

theorem gate_cache_frame_witness:
  "lastStates initial ''gps.hdop'' = None
   \<and> lastStates (setStateIfChangedAsync (clockAt 0) ''gps.hdop'' (Number (Fin 1)) initial) ''gps.hdop''
       = Some \<lparr>val = Number (Fin 1), ts = 0\<rparr>
   \<and> sink (setStateIfChangedAsync (clockAt 0) ''gps.hdop'' (Number (Fin 1)) initial) \<noteq> sink initial
   \<and> ''gps.vdop'' \<noteq> ''gps.hdop''
   \<and> lastStates (setStateIfChangedAsync (clockAt 0) ''gps.hdop'' (Number (Fin 1)) initial) ''gps.vdop''
       = lastStates initial ''gps.vdop''"
  using gate_cache_frame[of initial "''gps.hdop''" "clockAt 0" "Number (Fin 1)" "''gps.vdop''" "[]"]
  by (simp add: gate_decision initial_def clockAt_def)

text \<open>
  The claim C9 as it stands asks for the time stamp of the entry to move on a
  suppressed call: a second write of the same value one second after the first is
  suppressed, and the entry keeps the time of the first.
\<close>

theorem gate_suppressed_keeps_timestamp:
  "sink (setStateIfChangedAsync (clockAt 1000) ''gps.hdop'' (Number (Fin 1))
          (setStateIfChangedAsync (clockAt 0) ''gps.hdop'' (Number (Fin 1)) initial))
     = [(''gps.hdop'', Number (Fin 1))]
   \<and> lastStates (setStateIfChangedAsync (clockAt 1000) ''gps.hdop'' (Number (Fin 1))
          (setStateIfChangedAsync (clockAt 0) ''gps.hdop'' (Number (Fin 1)) initial)) ''gps.hdop''
     = Some \<lparr>val = Number (Fin 1), ts = 0\<rparr>
   \<and> lastStates (setStateIfChangedAsync (clockAt 1000) ''gps.hdop'' (Number (Fin 1))
          (setStateIfChangedAsync (clockAt 0) ''gps.hdop'' (Number (Fin 1)) initial)) ''gps.hdop''
     \<noteq> Some \<lparr>val = Number (Fin 1), ts = nowMs (clockAt 1000)\<rparr>"
  by (simp add: gate_decision initial_def clockAt_def strictEq_def)

text \<open>
  Claim C4, at its boundary. A value written again exactly 60000 ms after it was
  recorded is unchanged and not older than 60 seconds, and the gate forwards it: both
  writes reach the sink.
\<close>

theorem gate_forwards_at_sixty_seconds:
  "sink (setStateIfChangedAsync (clockAt 60000) ''gps.satellites'' (Number (Fin 18))
          (setStateIfChangedAsync (clockAt 0) ''gps.satellites'' (Number (Fin 18)) initial))
     = [(''gps.satellites'', Number (Fin 18)), (''gps.satellites'', Number (Fin 18))]"
  by (simp add: gate_decision initial_def clockAt_def strictEq_def)

section \<open>Decoding of buffers\<close>

text \<open>
  The code points that are Unicode scalar values, and the states in which the decoder
  can be: whatever bytes come, it puts out scalar values only.
\<close>

definition scalar :: "nat \<Rightarrow> bool" where
  "scalar cp = (cp < 0x110000 \<and> \<not> isSurrogate cp)"

lemma decodeBytes_append:
  "decodeBytes st (a @ b) =
     (case decodeBytes st a of (o1, s1) \<Rightarrow>
        (case decodeBytes s1 b of (o2, s2) \<Rightarrow> (o1 @ o2, s2)))"
  by (induction a arbitrary: st) (auto split: prod.splits)


fun good :: "utf8 \<Rightarrow> bool" where
  "good Idle = True"
| "good (Pending cp n lo up) =
     (if n = 1 then lo = 0x80 \<and> up = 0xBF \<and> 2 \<le> cp \<and> cp < 0x4400 \<and> \<not> (0x360 \<le> cp \<and> cp < 0x380)
      else if n = 2 then
        (lo = 0xA0 \<and> up = 0xBF \<and> cp = 0) \<or> (lo = 0x80 \<and> up = 0x9F \<and> cp = 0xD)
        \<or> (lo = 0x80 \<and> up = 0xBF \<and> 1 \<le> cp \<and> cp < 0x110 \<and> cp \<noteq> 0xD)
      else n = 3 \<and>
        ((lo = 0x90 \<and> up = 0xBF \<and> cp = 0) \<or> (lo = 0x80 \<and> up = 0x8F \<and> cp = 4)
         \<or> (lo = 0x80 \<and> up = 0xBF \<and> 1 \<le> cp \<and> cp \<le> 3)))"

lemma leadByte_good:
  assumes "leadByte b = (out, st)"
  shows "good st \<and> (\<forall>c \<in> set out. scalar c)"
proof -
  consider "b < 0x80" | "0x80 \<le> b" "b < 0xC2" | "0xC2 \<le> b" "b \<le> 0xDF"
    | "0xE0 \<le> b" "b \<le> 0xEF" | "0xF0 \<le> b" "b \<le> 0xF4" | "0xF5 \<le> b"
    by linarith
  then show ?thesis
  proof cases
    case 1
    with assms show ?thesis by (auto simp: leadByte_def scalar_def isSurrogate_def)
  next
    case 2
    with assms show ?thesis by (auto simp: leadByte_def scalar_def isSurrogate_def)
  next
    case 3
    then have "2 \<le> b mod 32" "b mod 32 < 0x4400" "\<not> (0x360 \<le> b mod 32 \<and> b mod 32 < 0x380)"
      by presburger+
    with 3 assms show ?thesis by (auto simp: leadByte_def)
  next
    case 4
    then have "b = 0xE0 \<Longrightarrow> b mod 16 = 0" "b = 0xED \<Longrightarrow> b mod 16 = 0xD"
      "b \<noteq> 0xE0 \<Longrightarrow> 1 \<le> b mod 16" "b mod 16 < 0x110" "b \<noteq> 0xED \<Longrightarrow> b mod 16 \<noteq> 0xD"
      by presburger+
    with 4 assms show ?thesis by (auto simp: leadByte_def)
  next
    case 5
    then have "b = 0xF0 \<Longrightarrow> b mod 8 = 0" "b = 0xF4 \<Longrightarrow> b mod 8 = 4"
      "b \<noteq> 0xF0 \<Longrightarrow> 1 \<le> b mod 8" "b \<noteq> 0xF4 \<Longrightarrow> b mod 8 \<le> 3"
      by presburger+
    with 5 assms show ?thesis by (auto simp: leadByte_def)
  next
    case 6
    with assms show ?thesis by (auto simp: leadByte_def scalar_def isSurrogate_def)
  qed
qed

lemma continuation_mod:
  fixes b :: nat
  assumes "0x80 \<le> b" "b \<le> 0xBF"
  shows "b mod 64 = b - 0x80"
proof -
  have "b = 64 * 2 + (b - 0x80)" using assms by simp
  then have "b mod 64 = (b - 0x80) mod 64"
    by (metis mod_mult_self4)
  with assms show ?thesis by simp
qed

lemma good_1:
  "good (Pending cp 1 lo up) =
     (lo = 0x80 \<and> up = 0xBF \<and> 2 \<le> cp \<and> cp < 0x4400 \<and> \<not> (0x360 \<le> cp \<and> cp < 0x380))"
  by simp

lemma good_2:
  "good (Pending cp 2 lo up) =
     ((lo = 0xA0 \<and> up = 0xBF \<and> cp = 0) \<or> (lo = 0x80 \<and> up = 0x9F \<and> cp = 0xD)
      \<or> (lo = 0x80 \<and> up = 0xBF \<and> 1 \<le> cp \<and> cp < 0x110 \<and> cp \<noteq> 0xD))"
  by simp

lemma good_3:
  "good (Pending cp 3 lo up) =
     ((lo = 0x90 \<and> up = 0xBF \<and> cp = 0) \<or> (lo = 0x80 \<and> up = 0x8F \<and> cp = 4)
      \<or> (lo = 0x80 \<and> up = 0xBF \<and> 1 \<le> cp \<and> cp \<le> 3))"
  by simp

lemma good_cases: "good (Pending cp n lo up) \<Longrightarrow> n = 1 \<or> n = 2 \<or> n = 3"
  by (simp split: if_splits)

declare good.simps(2) [simp del]

lemma continuation_1:
  assumes "good (Pending cp 1 lo up)" "lo \<le> b" "b \<le> up"
  shows "scalar (cp * 64 + b mod 64)"
proof -
  from assms have r: "0x80 \<le> b" "b \<le> 0xBF" and c: "2 \<le> cp" "cp < 0x4400" "cp < 0x360 \<or> 0x380 \<le> cp"
    unfolding good_1 by linarith+
  define x where "x = b - 0x80"
  have x: "b mod 64 = x" "x < 64"
    using continuation_mod[OF r] r by (simp_all add: x_def)
  from c x(2) have "cp * 64 + x < 0x110000" "cp * 64 + x < 0xD800 \<or> 0xE000 \<le> cp * 64 + x"
    by linarith+
  then show ?thesis
    unfolding x(1) scalar_def isSurrogate_def by linarith
qed

lemma continuation_2:
  assumes "good (Pending cp 2 lo up)" "lo \<le> b" "b \<le> up"
  shows "good (Pending (cp * 64 + b mod 64) 1 0x80 0xBF)"
proof -
  from assms(1) consider "lo = 0xA0" "up = 0xBF" "cp = 0" | "lo = 0x80" "up = 0x9F" "cp = 0xD"
    | "lo = 0x80" "up = 0xBF" "1 \<le> cp" "cp < 0x110" "cp \<noteq> 0xD"
    unfolding good_2 by auto
  then have "0x80 \<le> b \<and> b \<le> 0xBF \<and> 2 \<le> cp * 64 + (b - 0x80) \<and> cp * 64 + (b - 0x80) < 0x4400
      \<and> (cp * 64 + (b - 0x80) < 0x360 \<or> 0x380 \<le> cp * 64 + (b - 0x80))"
  proof cases
    case 1
    with assms(2,3) show ?thesis by (simp; linarith)
  next
    case 2
    with assms(2,3) show ?thesis by (simp; linarith)
  next
    case 3
    with assms(2,3) have "0x80 \<le> b" "b \<le> 0xBF" by simp_all
    moreover from 3 have "cp < 0xD \<or> 0xE \<le> cp" by linarith
    ultimately show ?thesis using 3(3,4) by linarith
  qed
  then have r: "0x80 \<le> b" "b \<le> 0xBF" and c: "2 \<le> cp * 64 + (b - 0x80)" "cp * 64 + (b - 0x80) < 0x4400"
      "\<not> (0x360 \<le> cp * 64 + (b - 0x80) \<and> cp * 64 + (b - 0x80) < 0x380)"
    by linarith+
  show ?thesis
    unfolding good_1 continuation_mod[OF r] using c by blast
qed

lemma continuation_3:
  assumes "good (Pending cp 3 lo up)" "lo \<le> b" "b \<le> up"
  shows "good (Pending (cp * 64 + b mod 64) 2 0x80 0xBF)"
proof -
  from assms(1) consider "lo = 0x90" "up = 0xBF" "cp = 0" | "lo = 0x80" "up = 0x8F" "cp = 4"
    | "lo = 0x80" "up = 0xBF" "1 \<le> cp" "cp \<le> 3"
    unfolding good_3 by auto
  then have "0x80 \<le> b \<and> b \<le> 0xBF \<and> 1 \<le> cp * 64 + (b - 0x80) \<and> cp * 64 + (b - 0x80) < 0x110
      \<and> cp * 64 + (b - 0x80) \<noteq> 0xD"
  proof cases
    case 1
    with assms(2,3) show ?thesis by (simp; linarith)
  next
    case 2
    with assms(2,3) show ?thesis by (simp; linarith)
  next
    case 3
    with assms(2,3) have "0x80 \<le> b" "b \<le> 0xBF" by simp_all
    then show ?thesis using 3(3,4) by linarith
  qed
  then have r: "0x80 \<le> b" "b \<le> 0xBF" and c: "1 \<le> cp * 64 + (b - 0x80)" "cp * 64 + (b - 0x80) < 0x110"
      "cp * 64 + (b - 0x80) \<noteq> 0xD"
    by linarith+
  show ?thesis
    unfolding good_2 continuation_mod[OF r] using c by blast
qed

lemma continuation_good:
  assumes "good (Pending cp n lo up)" "lo \<le> b" "b \<le> up"
  shows "if n = 1 then scalar (cp * 64 + b mod 64)
         else good (Pending (cp * 64 + b mod 64) (n - 1) 0x80 0xBF)"
proof -
  from good_cases[OF assms(1)] consider "n = 1" | "n = 2" | "n = 3"
    by blast
  then show ?thesis
  proof cases
    case 1
    with continuation_1[of cp lo up b] assms show ?thesis by simp
  next
    case 2
    with continuation_2[of cp lo up b] assms show ?thesis by simp
  next
    case 3
    then have "n - 1 = 2" "n \<noteq> 1" by simp_all
    with 3 continuation_3[of cp lo up b] assms show ?thesis by simp
  qed
qed

lemma decodeByte_good:
  assumes "good st" "decodeByte st b = (out, st')"
  shows "good st' \<and> (\<forall>c \<in> set out. scalar c)"
proof (cases st)
  case Idle
  with assms(2) show ?thesis by (simp add: decodeByte_def leadByte_good)
next
  case (Pending cp n lo up)
  show ?thesis
  proof (cases "lo \<le> b \<and> b \<le> up")
    case True
    with continuation_good[of cp n lo up b] assms Pending show ?thesis
      by (auto simp: decodeByte_def split: if_splits)
  next
    case False
    obtain o1 s1 where l: "leadByte b = (o1, s1)" by (cases "leadByte b")
    with False assms(2) Pending have "out = 0xFFFD # o1" "st' = s1"
      by (auto simp: decodeByte_def)
    with leadByte_good[OF l] show ?thesis
      by (simp add: scalar_def isSurrogate_def)
  qed
qed

lemma decodeBytes_good:
  "good st \<Longrightarrow> decodeBytes st bs = (out, st') \<Longrightarrow> good st' \<and> (\<forall>c \<in> set out. scalar c)"
proof (induction bs arbitrary: st out st')
  case Nil
  then show ?case by simp
next
  case (Cons b bs)
  obtain o1 s1 where a: "decodeByte st b = (o1, s1)" by (cases "decodeByte st b")
  obtain o2 s2 where b: "decodeBytes s1 bs = (o2, s2)" by (cases "decodeBytes s1 bs")
  from decodeByte_good[OF Cons.prems(1) a] have g: "good s1" "\<forall>c \<in> set o1. scalar c"
    by simp_all
  from Cons.IH[OF g(1) b] Cons.prems(2) a b g(2) show ?case
    by auto
qed


lemma add_mod_small:
  fixes q :: nat
  assumes "q < m"
  shows "(m * j + q) mod m = q"
  using assms by simp

lemma lead_mod:
  fixes q :: nat
  shows "q < 32 \<Longrightarrow> (0xC0 + q) mod 32 = q" "q < 16 \<Longrightarrow> (0xE0 + q) mod 16 = q"
    "q < 8 \<Longrightarrow> (0xF0 + q) mod 8 = q" "q < 64 \<Longrightarrow> (0x80 + q) mod 64 = q"
  using add_mod_small[of q 32 6] add_mod_small[of q 16 14] add_mod_small[of q 8 30]
    add_mod_small[of q 64 2]
  by simp_all

lemma decodeByte_continuation:
  "lo \<le> b \<Longrightarrow> b \<le> up \<Longrightarrow>
   decodeByte (Pending cp n lo up) b =
     (if n = 1 then ([cp * 64 + b mod 64], Idle)
      else ([], Pending (cp * 64 + b mod 64) (n - 1) 0x80 0xBF))"
  by (simp add: decodeByte_def)

lemma digits:
  fixes cp :: nat
  shows "cp = cp div 64 * 64 + cp mod 64" "cp mod 64 < 64"
    "cp div 4096 = cp div 64 div 64" "cp div 262144 = cp div 64 div 64 div 64"
proof -
  show "cp = cp div 64 * 64 + cp mod 64" "cp mod 64 < 64"
    by simp_all
  have "cp div 64 div 64 = cp div (64 * 64)"
    by (simp only: div_mult2_eq)
  then show a: "cp div 4096 = cp div 64 div 64"
    by simp
  have "cp div 64 div 64 div 64 = cp div (64 * 64 * 64)"
    by (simp only: div_mult2_eq)
  then show "cp div 262144 = cp div 64 div 64 div 64"
    by simp
qed

lemma decodeBytes_step:
  "decodeByte st b = (out, st') \<Longrightarrow>
   decodeBytes st (b # bs) = (out @ fst (decodeBytes st' bs), snd (decodeBytes st' bs))"
  by (simp add: case_prod_beta)

lemma decoded_head:
  "decodeBytes Idle bs' = ([cp] @ fst (decodeBytes Idle bs), snd (decodeBytes Idle bs)) \<Longrightarrow>
   decodeBytes Idle bs' = (case decodeBytes Idle bs of (out, st) \<Rightarrow> (cp # out, st))"
  by (simp add: case_prod_beta)

lemma decode_one:
  assumes "cp < 0x80"
  shows "decodeBytes Idle (utf8Bytes cp @ bs) =
           (case decodeBytes Idle bs of (out, st) \<Rightarrow> (cp # out, st))"
  using assms by (simp add: utf8Bytes_def decodeByte_def leadByte_def)

lemma decode_two:
  assumes "0x80 \<le> cp" "cp < 0x800"
  shows "decodeBytes Idle (utf8Bytes cp @ bs) =
           (case decodeBytes Idle bs of (out, st) \<Rightarrow> (cp # out, st))"
proof -
  define p1 r0 where "p1 = cp div 64" and "r0 = cp mod 64"
  have d: "cp = p1 * 64 + r0" "r0 < 64"
    by (simp_all add: p1_def r0_def)
  with assms have p1: "2 \<le> p1" "p1 < 32"
    by linarith+
  have u: "utf8Bytes cp = [0xC0 + p1, 0x80 + r0]"
    using assms by (simp add: utf8Bytes_def p1_def r0_def)
  have l: "leadByte (0xC0 + p1) = ([], Pending p1 1 0x80 0xBF)"
    using p1 lead_mod(1)[of p1] by (simp add: leadByte_def)
  have c: "decodeByte (Pending p1 1 0x80 0xBF) (0x80 + r0) = ([cp], Idle)"
    using d lead_mod(4)[of r0] by (simp add: decodeByte_continuation)
  have l': "decodeByte Idle (0xC0 + p1) = ([], Pending p1 1 0x80 0xBF)"
    using l by (simp add: decodeByte_def)
  show ?thesis
    unfolding u
    by (rule decoded_head)
      (simp only: append_Cons append_Nil fst_conv snd_conv decodeBytes_step[OF l'] decodeBytes_step[OF c])
qed

lemma decode_three:
  assumes "0x800 \<le> cp" "cp < 0x10000" "\<not> isSurrogate cp"
  shows "decodeBytes Idle (utf8Bytes cp @ bs) =
           (case decodeBytes Idle bs of (out, st) \<Rightarrow> (cp # out, st))"
proof -
  define p1 r0 where "p1 = cp div 64" and "r0 = cp mod 64"
  define p2 r1 where "p2 = p1 div 64" and "r1 = p1 mod 64"
  have d: "cp = p1 * 64 + r0" "r0 < 64" "p1 = p2 * 64 + r1" "r1 < 64"
    by (simp_all add: p1_def r0_def p2_def r1_def)
  with assms(1,2) have p2: "p2 < 16" and p1: "0x20 \<le> p1"
    by linarith+
  from assms(3) have ns: "cp < 0xD800 \<or> 0xE000 \<le> cp"
    by (simp add: isSurrogate_def) linarith
  have u: "utf8Bytes cp = [0xE0 + p2, 0x80 + r1, 0x80 + r0]"
    using assms(1,2) by (simp add: utf8Bytes_def p1_def r0_def p2_def r1_def digits(3))
  define lo up where "lo = (if p2 = 0 then 0xA0 else 0x80 :: nat)"
    and "up = (if p2 = 0xD then 0x9F else 0xBF :: nat)"
  have l: "leadByte (0xE0 + p2) = ([], Pending p2 2 lo up)"
    using p2 lead_mod(2)[of p2] by (simp add: leadByte_def lo_def up_def)
  have "p2 = 0 \<Longrightarrow> 0x20 \<le> r1"
    using d(3) p1 by simp
  moreover have "p2 = 0xD \<Longrightarrow> r1 < 0x20"
    using d ns by linarith
  ultimately have r: "lo \<le> 0x80 + r1" "0x80 + r1 \<le> up"
    using d(4) by (auto simp: lo_def up_def)
  have c1: "decodeByte (Pending p2 2 lo up) (0x80 + r1) = ([], Pending p1 1 0x80 0xBF)"
    using d lead_mod(4)[of r1] by (simp add: decodeByte_continuation[OF r])
  have c2: "decodeByte (Pending p1 1 0x80 0xBF) (0x80 + r0) = ([cp], Idle)"
    using d lead_mod(4)[of r0] by (simp add: decodeByte_continuation)
  have l': "decodeByte Idle (0xE0 + p2) = ([], Pending p2 2 lo up)"
    using l by (simp add: decodeByte_def)
  show ?thesis
    unfolding u
    by (rule decoded_head)
      (simp only: append_Cons append_Nil fst_conv snd_conv decodeBytes_step[OF l'] decodeBytes_step[OF c1]
        decodeBytes_step[OF c2])
qed

lemma decode_four:
  assumes "0x10000 \<le> cp" "cp < 0x110000"
  shows "decodeBytes Idle (utf8Bytes cp @ bs) =
           (case decodeBytes Idle bs of (out, st) \<Rightarrow> (cp # out, st))"
proof -
  define p1 r0 where "p1 = cp div 64" and "r0 = cp mod 64"
  define p2 r1 where "p2 = p1 div 64" and "r1 = p1 mod 64"
  define p3 r2 where "p3 = p2 div 64" and "r2 = p2 mod 64"
  have d: "cp = p1 * 64 + r0" "r0 < 64" "p1 = p2 * 64 + r1" "r1 < 64" "p2 = p3 * 64 + r2" "r2 < 64"
    by (simp_all add: p1_def r0_def p2_def r1_def p3_def r2_def)
  with assms have p3: "p3 < 5" and p2: "0x10 \<le> p2" "p2 < 0x110"
    by linarith+
  have u: "utf8Bytes cp = [0xF0 + p3, 0x80 + r2, 0x80 + r1, 0x80 + r0]"
    using assms by (simp add: utf8Bytes_def p1_def r0_def p2_def r1_def p3_def r2_def digits(3,4))
  define lo up where "lo = (if p3 = 0 then 0x90 else 0x80 :: nat)"
    and "up = (if p3 = 4 then 0x8F else 0xBF :: nat)"
  have l: "leadByte (0xF0 + p3) = ([], Pending p3 3 lo up)"
    using p3 lead_mod(3)[of p3] by (simp add: leadByte_def lo_def up_def)
  have "p3 = 0 \<Longrightarrow> 0x10 \<le> r2"
    using d(5) p2 by simp
  moreover have "p3 = 4 \<Longrightarrow> r2 < 0x10"
    using d(5) p2 by linarith
  ultimately have r: "lo \<le> 0x80 + r2" "0x80 + r2 \<le> up"
    using d(6) by (auto simp: lo_def up_def)
  have c1: "decodeByte (Pending p3 3 lo up) (0x80 + r2) = ([], Pending p2 2 0x80 0xBF)"
    using d lead_mod(4)[of r2] by (simp add: decodeByte_continuation[OF r])
  have c2: "decodeByte (Pending p2 2 0x80 0xBF) (0x80 + r1) = ([], Pending p1 1 0x80 0xBF)"
    using d lead_mod(4)[of r1] by (simp add: decodeByte_continuation)
  have c3: "decodeByte (Pending p1 1 0x80 0xBF) (0x80 + r0) = ([cp], Idle)"
    using d lead_mod(4)[of r0] by (simp add: decodeByte_continuation)
  have l': "decodeByte Idle (0xF0 + p3) = ([], Pending p3 3 lo up)"
    using l by (simp add: decodeByte_def)
  show ?thesis
    unfolding u
    by (rule decoded_head)
      (simp only: append_Cons append_Nil fst_conv snd_conv decodeBytes_step[OF l'] decodeBytes_step[OF c1]
        decodeBytes_step[OF c2] decodeBytes_step[OF c3])
qed

lemma decode_encoded:
  assumes "scalar cp"
  shows "decodeBytes Idle (utf8Bytes cp @ bs) =
           (case decodeBytes Idle bs of (out, st) \<Rightarrow> (cp # out, st))"
proof -
  from assms have "cp < 0x110000" "\<not> isSurrogate cp"
    by (simp_all add: scalar_def)
  moreover consider "cp < 0x80" | "0x80 \<le> cp" "cp < 0x800" | "0x800 \<le> cp" "cp < 0x10000"
    | "0x10000 \<le> cp"
    by linarith
  ultimately show ?thesis
    using decode_one decode_two decode_three decode_four by metis
qed

lemma utf8Bytes_below:
  assumes "cp < 0x110000" "b \<in> set (utf8Bytes cp)"
  shows "b < 256"
proof -
  have m: "x mod 64 < 128" for x :: nat
    using mod_less_divisor[of 64 x] by linarith
  have "cp div 64 < 0x4400" "cp div 64 div 64 < 0x110" "cp div 64 div 64 div 64 < 5"
    using assms(1) by linarith+
  moreover have "cp < 0x800 \<Longrightarrow> cp div 64 < 32" "cp < 0x10000 \<Longrightarrow> cp div 64 div 64 < 16"
    by linarith+
  ultimately show ?thesis
    using assms(2) m[of cp] m[of "cp div 64"] m[of "cp div 64 div 64"]
    by (auto simp: utf8Bytes_def digits(3,4) split: if_splits)
qed


lemma codePoints_single:
  "\<not> isSurrogate u \<Longrightarrow> codePoints (u # us) = u # codePoints us"
  by (cases us) (auto simp: isSurrogate_def)

lemma codePoints_utf16:
  assumes "scalar cp"
  shows "codePoints (utf16 cp @ us) = cp # codePoints us"
proof (cases "cp < 0x10000")
  case True
  with assms show ?thesis
    by (simp add: utf16_def scalar_def codePoints_single)
next
  case False
  define q r where "q = (cp - 0x10000) div 0x400" and "r = (cp - 0x10000) mod 0x400"
  have d: "cp - 0x10000 = q * 0x400 + r" "r < 0x400"
    by (simp_all add: q_def r_def)
  from assms False have "cp - 0x10000 < 0x100000"
    unfolding scalar_def by linarith
  with d have q: "q < 0x400"
    by linarith
  have u: "utf16 cp = [0xD800 + q, 0xDC00 + r]"
    using False by (simp add: utf16_def q_def r_def)
  from d False have "0x10000 + q * 0x400 + r = cp"
    by linarith
  with q d(2) show ?thesis
    unfolding u by simp
qed

lemma codePoints_concat:
  "\<forall>c \<in> set cps. scalar c \<Longrightarrow> codePoints (concat (map utf16 cps) @ us) = cps @ codePoints us"
  by (induction cps) (simp_all add: codePoints_utf16)

lemma decode_concat:
  "\<forall>c \<in> set cps. scalar c \<Longrightarrow> decodeBytes Idle (concat (map utf8Bytes cps)) = (cps, Idle)"
  by (induction cps) (simp_all add: decode_encoded)

lemma bytes_unat:
  "\<forall>b \<in> set bs. b < 256 \<Longrightarrow> map unat (map of_nat bs :: byte list) = bs"
proof (induction bs)
  case Nil
  show ?case by simp
next
  case (Cons b bs)
  then have "b < 2 ^ 8" by simp
  then have "unat (of_nat b :: byte) = b"
    by (simp add: unsigned_of_nat take_bit_nat_eq_self)
  with Cons show ?case by simp
qed

lemma toStringUtf8_bufferFrom:
  assumes "\<forall>c \<in> set cps. scalar c"
  shows "toStringUtf8 (bufferFrom (concat (map utf16 cps))) = concat (map utf16 cps)"
proof -
  have c: "codePoints (concat (map utf16 cps)) = cps"
    using codePoints_concat[OF assms, of "[]"] by simp
  have "\<forall>b \<in> set (concat (map utf8Bytes cps)). b < 256"
    using assms utf8Bytes_below by (auto simp: scalar_def)
  then have "map unat (bufferFrom (concat (map utf16 cps))) = concat (map utf8Bytes cps)"
    unfolding bufferFrom_def c by (rule bytes_unat)
  then show ?thesis
    by (simp add: toStringUtf8_def decode_concat[OF assms] flush_def)
qed

lemma toStringUtf8_scalars:
  "\<exists>cps. (\<forall>c \<in> set cps. scalar c) \<and> toStringUtf8 data = concat (map utf16 cps)"
proof -
  obtain out st where d: "decodeBytes Idle (map unat data) = (out, st)"
    by (cases "decodeBytes Idle (map unat data)")
  from decodeBytes_good[OF _ d] have "\<forall>c \<in> set out. scalar c"
    by simp
  then have "\<forall>c \<in> set (out @ flush st). scalar c"
    by (auto simp: flush_def scalar_def isSurrogate_def)
  moreover have "toStringUtf8 data = concat (map utf16 (out @ flush st))"
    by (simp add: toStringUtf8_def d)
  ultimately show ?thesis by blast
qed

lemma toStringUtf8_line:
  "toStringUtf8 (bufferFrom (toStringUtf8 data @ [0x0A])) = toStringUtf8 data @ [0x0A]"
proof -
  obtain cps where c: "\<forall>c \<in> set cps. scalar c" "toStringUtf8 data = concat (map utf16 cps)"
    using toStringUtf8_scalars by blast
  have "\<forall>c \<in> set (cps @ [0x0A]). scalar c"
    using c(1) by (simp add: scalar_def isSurrogate_def)
  from toStringUtf8_bufferFrom[OF this] show ?thesis
    by (simp add: c(2) utf16_def)
qed

lemma decodeBytes_ascii:
  "\<forall>b \<in> set bs. b < 0x80 \<Longrightarrow> decodeBytes Idle bs = (bs, Idle)"
  by (induction bs) (simp_all add: decodeByte_def leadByte_def)

lemma utf16_ascii: "\<forall>b \<in> set bs. b < 0x80 \<Longrightarrow> concat (map utf16 bs) = bs"
  by (induction bs) (simp_all add: utf16_def)

lemma toStringUtf8_ascii:
  assumes "\<forall>b \<in> set data. b < 0x80"
  shows "toStringUtf8 data = map unat data" "endsOnBoundary data"
proof -
  from assms have a: "\<forall>b \<in> set (map unat data). b < 0x80"
    by (simp add: word_less_nat_alt)
  from decodeBytes_ascii[OF a] utf16_ascii[OF a]
  show "toStringUtf8 data = map unat data" "endsOnBoundary data"
    by (simp_all add: toStringUtf8_def endsOnBoundary_def flush_def)
qed

lemma toStringUtf8_append:
  assumes "endsOnBoundary a"
  shows "toStringUtf8 (a @ b) = toStringUtf8 a @ toStringUtf8 b"
proof -
  obtain out where a: "decodeBytes Idle (map unat a) = (out, Idle)"
    using assms by (cases "decodeBytes Idle (map unat a)") (simp add: endsOnBoundary_def)
  show ?thesis
    by (auto simp: toStringUtf8_def decodeBytes_append a flush_def split: prod.splits)
qed

lemma endsOnBoundary_append:
  assumes "endsOnBoundary a" "endsOnBoundary b"
  shows "endsOnBoundary (a @ b)"
proof -
  obtain out where a: "decodeBytes Idle (map unat a) = (out, Idle)"
    using assms(1) by (cases "decodeBytes Idle (map unat a)") (simp add: endsOnBoundary_def)
  from assms(2) show ?thesis
    by (auto simp: endsOnBoundary_def decodeBytes_append a split: prod.splits)
qed

lemma toStringUtf8_concat:
  "\<forall>c \<in> set cs. endsOnBoundary c \<Longrightarrow>
   toStringUtf8 (concat cs) = concat (map toStringUtf8 cs) \<and> endsOnBoundary (concat cs)"
proof (induction cs)
  case Nil
  show ?case by (simp add: toStringUtf8_def endsOnBoundary_def flush_def)
next
  case (Cons c cs)
  then show ?case
    by (simp add: toStringUtf8_append endsOnBoundary_append)
qed

lemma utf16_below:
  assumes "scalar cp" "u \<in> set (utf16 cp)"
  shows "u < 0x10000"
proof (cases "cp < 0x10000")
  case True
  with assms show ?thesis by (simp add: utf16_def)
next
  case False
  define q r where "q = (cp - 0x10000) div 0x400" and "r = (cp - 0x10000) mod 0x400"
  have d: "cp - 0x10000 = q * 0x400 + r" "r < 0x400"
    by (simp_all add: q_def r_def)
  from assms False have "cp - 0x10000 < 0x100000"
    unfolding scalar_def by linarith
  with d have q: "q < 0x400"
    by linarith
  have "utf16 cp = [0xD800 + q, 0xDC00 + r]"
    using False by (simp add: utf16_def q_def r_def)
  with assms(2) q d(2) show ?thesis
    by auto
qed

lemma toStringUtf8_units: "u \<in> set (toStringUtf8 data) \<Longrightarrow> u < 0x10000"
  using toStringUtf8_scalars[of data] utf16_below by fastforce

text \<open>The bytes of a string of the decoder, and their text.\<close>

lemma of_char_below: "of_char c < (256 :: nat)"
  by (cases c) (simp add: of_char_def)

lemma of_char_lf: "(of_char c = (0x0A :: nat)) = (c = CHR 0x0A)"
  using of_char_eq_iff[of c "CHR 0x0A", where ?'a = nat] by simp

lemma wide_scalars: "\<forall>c \<in> set (wide t). scalar c"
proof -
  have "scalar (of_char c)" for c :: char
    unfolding scalar_def isSurrogate_def using of_char_below[of c] by linarith
  then show ?thesis by (simp add: wide_def)
qed

lemma wide_units: "concat (map utf16 (wide t)) = wide t"
proof -
  have "of_char c < (0x10000 :: nat)" for c :: char
    using of_char_below[of c] by linarith
  then show ?thesis
    by (induction t) (simp_all add: wide_def utf16_def)
qed

lemma toStringUtf8_wide: "toStringUtf8 (bufferFrom (wide t)) = wide t"
  using toStringUtf8_bufferFrom[OF wide_scalars, of t] by (simp add: wide_units)

lemma endsOnBoundary_wide: "endsOnBoundary (bufferFrom (wide t))"
proof -
  have c: "codePoints (wide t) = wide t"
    using codePoints_concat[OF wide_scalars, of t "[]"] by (simp add: wide_units)
  have "\<forall>b \<in> set (concat (map utf8Bytes (wide t))). b < 256"
    using wide_scalars[of t] utf8Bytes_below by (auto simp: scalar_def)
  then have "map unat (bufferFrom (wide t)) = concat (map utf8Bytes (wide t))"
    unfolding bufferFrom_def c by (rule bytes_unat)
  then show ?thesis
    by (simp add: endsOnBoundary_def decode_concat[OF wide_scalars])
qed

lemma wide_append: "wide (a @ b) = wide a @ wide b"
  by (simp add: wide_def)

text \<open>A line of a string of the decoder is decoded.\<close>

lemma narrow_wide: "narrow (wide t) = Some t"
proof -
  have "list_all (\<lambda>u. u < 256) (wide t)"
    by (induction t) (simp_all add: wide_def)
  moreover have "map char_of (wide t) = t"
    by (induction t) (simp_all add: wide_def)
  ultimately show ?thesis by (simp add: narrow_def)
qed

lemma parseLine_wide: "parseLine clk (wide t) s = parseData clk t s"
  by (simp add: parseLine_def narrow_wide)

section \<open>Framing of the received text\<close>

lemma framed_no_newline:
  "indexOf b 0x0A = None \<Longrightarrow> framed cur b = ([], cur @ b)"
  by (induction b arbitrary: cur) (auto split: if_splits)

lemma framed_newline:
  "indexOf b 0x0A = Some i \<Longrightarrow>
   framed cur b = (case framed [] (drop (i + 1) b) of (ls, r) \<Rightarrow> ((cur @ take (i + 1) b) # ls, r))"
proof (induction b arbitrary: cur i)
  case Nil
  then show ?case by simp
next
  case (Cons c cs)
  show ?case
  proof (cases "c = 0x0A")
    case True
    with Cons.prems show ?thesis by simp
  next
    case False
    with Cons.prems obtain j where j: "indexOf cs 0x0A = Some j" and i: "i = Suc j"
      by auto
    from Cons.IH[OF j, of "cur @ [c]"] False i show ?thesis
      by simp
  qed
qed

lemma framed_append:
  "framed cur (a @ b) =
     (case framed cur a of (la, ra) \<Rightarrow> (case framed ra b of (lb, rb) \<Rightarrow> (la @ lb, rb)))"
  by (induction a arbitrary: cur) (auto split: prod.splits)

lemma drainLines_framed:
  "framing (drainLines clk s) = (remainderOf (recvBuffer s), parsed s @ linesOf (recvBuffer s))"
proof (induction clk s rule: drainLines.induct)
  case (1 clk s)
  show ?case
  proof (cases "indexOf (recvBuffer s) 0x0A")
    case None
    then show ?thesis
      by (simp add: drainLines.simps[of clk s] framing_def remainderOf_def linesOf_def
          framed_no_newline)
  next
    case (Some idx)
    let ?line = "take (idx + 1) (recvBuffer s)"
    let ?s1 = "s\<lparr>recvBuffer := drop (idx + 1) (recvBuffer s), parsed := parsed s @ [?line]\<rparr>"
    let ?s2 = "parseLine clk ?line ?s1"
    have s2: "recvBuffer ?s2 = drop (idx + 1) (recvBuffer s)" "parsed ?s2 = parsed s @ [?line]"
      by (simp_all add: recvBuffer_parseLine parsed_parseLine)
    have "framing (drainLines clk s) = framing (drainLines clk ?s2)"
      using Some by (simp add: drainLines.simps[of clk s] Let_def)
    also have "\<dots> = (remainderOf (recvBuffer ?s2), parsed ?s2 @ linesOf (recvBuffer ?s2))"
      by (rule "1.IH"[OF Some refl refl])
    also have "\<dots> = (remainderOf (recvBuffer s), parsed s @ linesOf (recvBuffer s))"
      unfolding s2 using framed_newline[OF Some, of "[]"]
      by (simp add: remainderOf_def linesOf_def split: prod.splits)
    finally show ?thesis .
  qed
qed

lemma processReceivedData_framed:
  "recvBuffer (processReceivedData clk data s) = remainderOf (recvBuffer s @ toStringUtf8 data)"
  "parsed (processReceivedData clk data s) = parsed s @ linesOf (recvBuffer s @ toStringUtf8 data)"
  using drainLines_framed[of clk "s\<lparr>recvBuffer := recvBuffer s @ toStringUtf8 data\<rparr>"]
  by (simp_all add: processReceivedData_def framing_def)

lemma framed_whole: "framed cur t = (ls, r) \<Longrightarrow> concat ls @ r = cur @ t"
  by (induction t arbitrary: cur ls r) (auto split: if_splits prod.splits)

lemma framed_rest: "framed cur t = (ls, r) \<Longrightarrow> 0x0A \<notin> set cur \<Longrightarrow> 0x0A \<notin> set r"
  by (induction t arbitrary: cur ls r) (auto split: if_splits prod.splits)

lemma framed_lines:
  "framed cur t = (ls, r) \<Longrightarrow> 0x0A \<notin> set cur \<Longrightarrow> l \<in> set ls \<Longrightarrow>
   l \<noteq> [] \<and> last l = 0x0A \<and> 0x0A \<notin> set (butlast l)"
proof (induction t arbitrary: cur ls r)
  case Nil
  then show ?case by simp
next
  case (Cons c cs)
  show ?case
  proof (cases "c = 0x0A")
    case True
    obtain ls' r' where f: "framed [] cs = (ls', r')"
      by (cases "framed [] cs")
    with Cons.prems True have ls: "ls = (cur @ [c]) # ls'"
      by simp
    show ?thesis
    proof (cases "l = cur @ [c]")
      case True
      with \<open>c = 0x0A\<close> Cons.prems(2) show ?thesis by simp
    next
      case False
      with ls Cons.prems(3) have "l \<in> set ls'" by simp
      with Cons.IH[OF f] show ?thesis by simp
    qed
  next
    case False
    with Cons.prems have "framed (cur @ [c]) cs = (ls, r)" "0x0A \<notin> set (cur @ [c])"
      by simp_all
    from Cons.IH[OF this Cons.prems(3)] show ?thesis .
  qed
qed

lemma indexOf_None: "indexOf b c = None \<longleftrightarrow> c \<notin> set b"
  by (induction b) auto

lemma framing_whole: "concat (linesOf t) @ remainderOf t = t"
  using framed_whole[of "[]" t "linesOf t" "remainderOf t"]
  by (simp add: linesOf_def remainderOf_def)

lemma framing_rest: "0x0A \<notin> set (remainderOf t)"
  using framed_rest[of "[]" t "linesOf t" "remainderOf t"]
  by (simp add: linesOf_def remainderOf_def)

lemma framing_lines:
  "l \<in> set (linesOf t) \<Longrightarrow> l \<noteq> [] \<and> last l = 0x0A \<and> 0x0A \<notin> set (butlast l)"
  using framed_lines[of "[]" t "linesOf t" "remainderOf t" l]
  by (simp add: linesOf_def remainderOf_def)

lemma framing_append:
  "linesOf (a @ b) = linesOf a @ linesOf (remainderOf a @ b)"
  "remainderOf (a @ b) = remainderOf (remainderOf a @ b)"
proof -
  have r: "framed (remainderOf a) b = framed [] (remainderOf a @ b)"
    using framed_append[of "[]" "remainderOf a" b]
      framed_no_newline[of "remainderOf a" "[]"] framing_rest[of a]
    by (simp add: indexOf_None split: prod.splits)
  show "linesOf (a @ b) = linesOf a @ linesOf (remainderOf a @ b)"
    using framed_append[of "[]" a b] r
    by (simp add: linesOf_def remainderOf_def split: prod.splits)
  show "remainderOf (a @ b) = remainderOf (remainderOf a @ b)"
    using framed_append[of "[]" a b] r
    by (simp add: linesOf_def remainderOf_def split: prod.splits)
qed

lemma framing_scheduleReconnect: "framing (scheduleReconnect s) = framing s"
  by (simp add: scheduleReconnect_def framing_def split: option.splits)

lemma framing_clearReconnect: "framing (clearReconnect s) = framing s"
  by (simp add: clearReconnect_def framing_def split: option.splits)

lemma framing_closePort: "framing (closePort s) = framing s"
  by (simp add: closePort_def framing_def split: option.splits)

lemma framing_openPort: "framing (openPort clk outcome s) = framing s"
proof (cases "outcome = Throws")
  case True
  then show ?thesis
    by (simp add: openPort_def Let_def framing_scheduleReconnect framing_gate framing_closePort)
next
  case False
  have "framing (closePort s\<lparr>serialPort := Some (outcome = Opens)\<rparr>) = framing (closePort s)"
    by (simp add: framing_def)
  with False show ?thesis
    by (simp add: openPort_def Let_def framing_closePort)
qed

lemma framing_quiet_events:
  "framing (step clk SerialClose s) = framing s"
  "framing (step clk (SerialError stillOpen) s) = framing s"
  "framing (step clk (TimerFired h outcome) s) = framing s"
  "framing (step clk Unload s) = framing s"
  "framing (step clk (Ready outcome) s) = framing s"
  "framing (step clk ProbeClose s) = framing s"
  "framing (step clk (ProbeReopen outcome) s) = framing s"
proof -
  have p: "framing (s\<lparr>serialPort := q\<rparr>) = framing s" for q
    by (simp add: framing_def)
  show "framing (step clk SerialClose s) = framing s"
    by (simp add: framing_scheduleReconnect framing_gate p)
  show "framing (step clk (SerialError stillOpen) s) = framing s"
    by (simp add: framing_scheduleReconnect framing_gate p)
  have "framing (s\<lparr>timers := ts, reconnectTimer := None\<rparr>) = framing s" for ts
    by (simp add: framing_def)
  then show "framing (step clk (TimerFired h outcome) s) = framing s"
    by (simp add: framing_openPort)
  show "framing (step clk Unload s) = framing s"
    by (simp add: framing_closePort framing_clearReconnect)
  have "framing (s\<lparr>sink := k\<rparr>) = framing s" for k
    by (simp add: framing_def)
  then show "framing (step clk (Ready outcome) s) = framing s"
    by (simp add: framing_openPort)
  show "framing (step clk ProbeClose s) = framing s"
    by (simp add: framing_closePort)
  show "framing (step clk (ProbeReopen outcome) s) = framing s"
    by (simp add: framing_openPort)
qed

lemma framing_data_event:
  "framing (step clk (SerialData d) s)
     = (remainderOf (recvBuffer s @ toStringUtf8 d), parsed s @ linesOf (recvBuffer s @ toStringUtf8 d))"
proof -
  have "recvBuffer (clearReconnect s) = recvBuffer s" "parsed (clearReconnect s) = parsed s"
    using framing_clearReconnect[of s] by (simp_all add: framing_def)
  then show ?thesis
    by (simp add: framing_def processReceivedData_framed)
qed

lemma framing_udp_event:
  "framing (step clk (UdpMessage d) s)
     = (remainderOf (recvBuffer s @ toStringUtf8 d @ [0x0A]),
        parsed s @ linesOf (recvBuffer s @ toStringUtf8 d @ [0x0A]))"
proof -
  let ?g = "setStateIfChangedAsync clk ''info.connection'' (Boolean True) s"
  have "recvBuffer ?g = recvBuffer s" "parsed ?g = parsed s"
    using framing_gate[of clk "''info.connection''" "Boolean True" s] by (simp_all add: framing_def)
  then show ?thesis
    by (simp add: framing_def processReceivedData_framed toStringUtf8_line)
qed

lemma recvBuffer_step:
  "recvBuffer (step clk ev s) =
     (case ev of
        SerialData d \<Rightarrow> remainderOf (recvBuffer s @ toStringUtf8 d)
      | UdpMessage d \<Rightarrow> remainderOf (recvBuffer s @ toStringUtf8 d @ [0x0A])
      | _ \<Rightarrow> recvBuffer s)"
proof -
  have "fst (framing (step clk ev s)) =
     (case ev of
        SerialData d \<Rightarrow> remainderOf (recvBuffer s @ toStringUtf8 d)
      | UdpMessage d \<Rightarrow> remainderOf (recvBuffer s @ toStringUtf8 d @ [0x0A])
      | _ \<Rightarrow> fst (framing s))"
    by (cases ev) (simp_all only: framing_quiet_events framing_data_event framing_udp_event
        event.case fst_conv)
  then show ?thesis
    by (simp only: framing_def fst_conv)
qed

lemma buffer_no_newline_step:
  "0x0A \<notin> set (recvBuffer s) \<Longrightarrow> 0x0A \<notin> set (recvBuffer (step clk ev s))"
  by (cases ev) (simp_all only: recvBuffer_step event.case framing_rest not_False_eq_True)

lemma buffer_no_newline_run:
  "0x0A \<notin> set (recvBuffer s) \<Longrightarrow> 0x0A \<notin> set (recvBuffer (run evs s))"
  unfolding run_def
proof (induction evs arbitrary: s)
  case Nil
  then show ?case by simp
next
  case (Cons e evs)
  obtain clk ev where e: "e = (clk, ev)" by (cases e)
  from Cons.prems have "0x0A \<notin> set (recvBuffer (step clk ev s))"
    by (rule buffer_no_newline_step)
  from Cons.IH[OF this] show ?case
    by (simp add: e del: step.simps)
qed

lemma linesOf_no_newline: "0x0A \<notin> set b \<Longrightarrow> linesOf b = [] \<and> remainderOf b = b"
  by (simp add: linesOf_def remainderOf_def framed_no_newline indexOf_None)

text \<open>Chunks of serial data, one event each.\<close>

lemma feed_framed:
  assumes "0x0A \<notin> set (recvBuffer s)"
  shows "framing (run (map (\<lambda>(clk, c). (clk, SerialData c)) cs) s)
           = (remainderOf (recvBuffer s @ concat (map (\<lambda>x. toStringUtf8 (snd x)) cs)),
              parsed s @ linesOf (recvBuffer s @ concat (map (\<lambda>x. toStringUtf8 (snd x)) cs)))"
  using assms
proof (induction cs arbitrary: s)
  case Nil
  then show ?case
    by (simp add: run_def framing_def linesOf_no_newline)
next
  case (Cons x cs)
  obtain clk c where x: "x = (clk, c)" by (cases x)
  define s1 where "s1 = step clk (SerialData c) s"
  have f1: "recvBuffer s1 = remainderOf (recvBuffer s @ toStringUtf8 c)"
    "parsed s1 = parsed s @ linesOf (recvBuffer s @ toStringUtf8 c)"
    unfolding s1_def using framing_data_event[of clk c s] by (simp_all add: framing_def)
  then have nl: "0x0A \<notin> set (recvBuffer s1)"
    by (simp add: framing_rest)
  have "run (map (\<lambda>(clk, c). (clk, SerialData c)) (x # cs)) s
          = run (map (\<lambda>(clk, c). (clk, SerialData c)) cs) s1"
    unfolding s1_def by (simp add: run_def x)
  then show ?case
    using Cons.IH[OF nl]
      framing_append[of "recvBuffer s @ toStringUtf8 c" "concat (map (\<lambda>x. toStringUtf8 (snd x)) cs)"]
    by (simp add: f1 x)
qed

text \<open>Two sentences with their checksums, for the examples.\<close>

definition rmcSentence :: string where
  "rmcSentence = ''$GNRMC,191721.000,A,4331.6629,N,01557.8394,E,0.51,12.3,230125,,,A*70''"

definition ggaSentence :: string where
  "ggaSentence = ''$GNGGA,191721.000,4331.6629,N,01557.8394,E,2,18,0.70,-4.7,M,40.9,M,,*5F''"

lemma framed_wide:
  "framed cur (wide (c # t)) =
     (if c = CHR 0x0A then (case framed [] (wide t) of (ls, r) \<Rightarrow> ((cur @ [0x0A]) # ls, r))
      else framed (cur @ [of_char c]) (wide t))"
  "framed cur (wide []) = ([], cur)"
proof -
  show "framed cur (wide (c # t)) =
     (if c = CHR 0x0A then (case framed [] (wide t) of (ls, r) \<Rightarrow> ((cur @ [0x0A]) # ls, r))
      else framed (cur @ [of_char c]) (wide t))"
    by (simp add: wide_def of_char_lf)
  show "framed cur (wide []) = ([], cur)"
    by (simp add: wide_def)
qed

lemma framed_wide_line:
  "CHR 0x0A \<notin> set t \<Longrightarrow> framed cur (wide t) = ([], cur @ wide t)"
  "CHR 0x0A \<notin> set t \<Longrightarrow>
   framed cur (wide (t @ CHR 0x0A # u))
     = (case framed [] (wide u) of (ls, r) \<Rightarrow> ((cur @ wide (t @ [CHR 0x0A])) # ls, r))"
proof -
  show "CHR 0x0A \<notin> set t \<Longrightarrow> framed cur (wide t) = ([], cur @ wide t)"
    by (induction t arbitrary: cur) (auto simp: wide_def of_char_lf)
  show "CHR 0x0A \<notin> set t \<Longrightarrow>
   framed cur (wide (t @ CHR 0x0A # u))
     = (case framed [] (wide u) of (ls, r) \<Rightarrow> ((cur @ wide (t @ [CHR 0x0A])) # ls, r))"
    by (induction t arbitrary: cur) (auto simp: wide_def of_char_lf)
qed

lemma sentences_one_line: "CHR 0x0A \<notin> set rmcSentence" "CHR 0x0A \<notin> set ggaSentence"
  by (simp_all add: rmcSentence_def ggaSentence_def)

lemma two_chunks:
  "linesOf (wide (rmcSentence @ CHR 0x0A # ggaSentence)) = [wide (rmcSentence @ [CHR 0x0A])]"
  "remainderOf (wide (rmcSentence @ CHR 0x0A # ggaSentence)) = wide ggaSentence"
  "linesOf (wide (rmcSentence @ CHR 0x0A # ggaSentence @ [CHR 0x0A]))
     = [wide (rmcSentence @ [CHR 0x0A]), wide (ggaSentence @ [CHR 0x0A])]"
  "remainderOf (wide (rmcSentence @ CHR 0x0A # ggaSentence @ [CHR 0x0A])) = []"
  using framed_wide_line(2)[OF sentences_one_line(1), of "[]" ggaSentence]
    framed_wide_line(2)[OF sentences_one_line(1), of "[]" "ggaSentence @ [CHR 0x0A]"]
    framed_wide_line(1)[OF sentences_one_line(2), of "[]"]
    framed_wide_line(2)[OF sentences_one_line(2), of "[]" "[]"]
  by (simp_all add: linesOf_def remainderOf_def framed_wide(2))

text \<open>
  Claim C5, as amended. From any state the adapter reaches, feed any chunks of serial
  data, each at its own time. Every chunk is decoded on its own: the lines handed to
  the parser are exactly the lines of the buffered text followed by the texts of the
  chunks that end in a line feed, in order, and what follows the last line feed stays
  in the buffer. Every such line is non-empty, ends in a line feed and holds no other;
  the buffer holds none. When no chunk ends inside a UTF-8 sequence, the texts of the
  chunks together are the text of all the bytes, so that the result depends on the
  bytes only and not on where they are cut; this is so for bytes below 128, which are
  their own text. A last sentence with no line feed after it stays in the buffer,
  whole, and is handed over when the line feed comes.
\<close>

theorem framing_fragmentation:
  "let s = run evs initial;
       t = recvBuffer s @ concat (map (\<lambda>x. toStringUtf8 (snd x)) cs);
       s' = run (map (\<lambda>(clk, c). (clk, SerialData c)) cs) s
   in parsed s' = parsed s @ linesOf t
      \<and> recvBuffer s' = remainderOf t
      \<and> concat (linesOf t) @ remainderOf t = t
      \<and> 0x0A \<notin> set (remainderOf t)
      \<and> (\<forall>l \<in> set (linesOf t). l \<noteq> [] \<and> last l = 0x0A \<and> 0x0A \<notin> set (butlast l))
      \<and> ((\<forall>c \<in> set (map snd cs). endsOnBoundary c) \<longrightarrow>
            concat (map (\<lambda>x. toStringUtf8 (snd x)) cs) = toStringUtf8 (concat (map snd cs))
            \<and> parsed s' = parsed s @ linesOf (recvBuffer s @ toStringUtf8 (concat (map snd cs)))
            \<and> recvBuffer s' = remainderOf (recvBuffer s @ toStringUtf8 (concat (map snd cs))))
      \<and> ((\<forall>b \<in> set d. b < 0x80) \<longrightarrow> endsOnBoundary d \<and> toStringUtf8 d = map unat d)"
proof -
  let ?s = "run evs initial"
  have "0x0A \<notin> set (recvBuffer ?s)"
    by (rule buffer_no_newline_run) (simp add: initial_def)
  note f = feed_framed[OF this, of cs]
  have c: "(\<forall>c \<in> set (map snd cs). endsOnBoundary c) \<longrightarrow>
            concat (map (\<lambda>x. toStringUtf8 (snd x)) cs) = toStringUtf8 (concat (map snd cs))"
    using toStringUtf8_concat[of "map snd cs"] by (simp add: comp_def)
  have a: "(\<forall>b \<in> set d. b < 0x80) \<longrightarrow> endsOnBoundary d \<and> toStringUtf8 d = map unat d"
    using toStringUtf8_ascii[of d] by blast
  from f have p: "parsed (run (map (\<lambda>(clk, c). (clk, SerialData c)) cs) ?s)
        = parsed ?s @ linesOf (recvBuffer ?s @ concat (map (\<lambda>x. toStringUtf8 (snd x)) cs))"
    and b: "recvBuffer (run (map (\<lambda>(clk, c). (clk, SerialData c)) cs) ?s)
        = remainderOf (recvBuffer ?s @ concat (map (\<lambda>x. toStringUtf8 (snd x)) cs))"
    by (simp_all add: framing_def)
  from c p b have c': "(\<forall>c \<in> set (map snd cs). endsOnBoundary c) \<longrightarrow>
            concat (map (\<lambda>x. toStringUtf8 (snd x)) cs) = toStringUtf8 (concat (map snd cs))
            \<and> parsed (run (map (\<lambda>(clk, c). (clk, SerialData c)) cs) ?s)
                = parsed ?s @ linesOf (recvBuffer ?s @ toStringUtf8 (concat (map snd cs)))
            \<and> recvBuffer (run (map (\<lambda>(clk, c). (clk, SerialData c)) cs) ?s)
                = remainderOf (recvBuffer ?s @ toStringUtf8 (concat (map snd cs)))"
    by metis
  from p b c' a show ?thesis
    unfolding Let_def using framing_whole framing_rest framing_lines
    by blast
qed

theorem framing_fragmentation_witness:
  "parsed (run [(clockAt 0, SerialData (bufferFrom (wide (rmcSentence @ [CHR 0x0A] @ take 20 ggaSentence)))),
                (clockAt 40, SerialData (bufferFrom (wide (drop 20 ggaSentence))))] initial)
     = [wide (rmcSentence @ [CHR 0x0A])]
   \<and> recvBuffer (run [(clockAt 0, SerialData (bufferFrom (wide (rmcSentence @ [CHR 0x0A] @ take 20 ggaSentence)))),
                (clockAt 40, SerialData (bufferFrom (wide (drop 20 ggaSentence))))] initial)
     = wide ggaSentence
   \<and> parsed (run [(clockAt 0, SerialData (bufferFrom (wide (rmcSentence @ [CHR 0x0A] @ take 20 ggaSentence)))),
                (clockAt 40, SerialData (bufferFrom (wide (drop 20 ggaSentence)))),
                (clockAt 80, SerialData [0x0A])] initial)
     = [wide (rmcSentence @ [CHR 0x0A]), wide (ggaSentence @ [CHR 0x0A])]
   \<and> recvBuffer (run [(clockAt 0, SerialData (bufferFrom (wide (rmcSentence @ [CHR 0x0A] @ take 20 ggaSentence)))),
                (clockAt 40, SerialData (bufferFrom (wide (drop 20 ggaSentence)))),
                (clockAt 80, SerialData [0x0A])] initial)
     = []
   \<and> wide (rmcSentence @ [CHR 0x0A]) \<in> set (linesOf (wide (rmcSentence @ CHR 0x0A # ggaSentence)))
   \<and> last (wide (rmcSentence @ [CHR 0x0A])) = 0x0A
   \<and> endsOnBoundary (bufferFrom (wide (rmcSentence @ [CHR 0x0A] @ take 20 ggaSentence)))
   \<and> endsOnBoundary (bufferFrom (wide (drop 20 ggaSentence)))
   \<and> toStringUtf8 (bufferFrom (wide (rmcSentence @ [CHR 0x0A] @ take 20 ggaSentence)))
       @ toStringUtf8 (bufferFrom (wide (drop 20 ggaSentence)))
     = toStringUtf8 (bufferFrom (wide (rmcSentence @ [CHR 0x0A] @ take 20 ggaSentence))
         @ bufferFrom (wide (drop 20 ggaSentence)))
   \<and> endsOnBoundary [0x0A] \<and> toStringUtf8 [0x0A] = [0x0A]"
proof -
  let ?c1 = "bufferFrom (wide (rmcSentence @ [CHR 0x0A] @ take 20 ggaSentence))"
  let ?c2 = "bufferFrom (wide (drop 20 ggaSentence))"
  have r0: "run [] initial = initial"
    by (simp add: run_def)
  have i0: "recvBuffer initial = []" "parsed initial = []"
    by (simp_all add: initial_def)
  have lf: "\<forall>b \<in> set [0x0A :: byte]. b < 0x80"
    by simp
  note a = framing_fragmentation[of "[]" "[(clockAt 0, ?c1), (clockAt 40, ?c2)]" "[0x0A]",
      unfolded Let_def r0]
  note b = framing_fragmentation[of "[]" "[(clockAt 0, ?c1), (clockAt 40, ?c2), (clockAt 80, [0x0A])]"
      "[0x0A]", unfolded Let_def r0]
  have "wide (x @ take 20 ggaSentence) @ wide (drop 20 ggaSentence) = wide (x @ ggaSentence)" for x
    by (simp only: wide_append[symmetric] append_assoc append_take_drop_id)
  then have j: "wide (x @ take 20 ggaSentence) @ wide (drop 20 ggaSentence) @ y = wide (x @ ggaSentence) @ y"
    for x y
    by (metis append_assoc)
  have t1: "concat (map (\<lambda>x. toStringUtf8 (snd x)) [(clockAt 0, ?c1), (clockAt 40, ?c2)])
      = wide (rmcSentence @ CHR 0x0A # ggaSentence)"
    using j[of "rmcSentence @ [CHR 0x0A]" "[]"] by (simp add: toStringUtf8_wide)
  from b lf have u: "endsOnBoundary [0x0A]" "toStringUtf8 [0x0A :: byte] = [0x0A]"
    by simp_all
  have w: "wide (rmcSentence @ CHR 0x0A # ggaSentence @ [CHR 0x0A])
      = wide (rmcSentence @ CHR 0x0A # ggaSentence) @ [0x0A]"
    by (simp add: wide_def)
  have t2: "concat (map (\<lambda>x. toStringUtf8 (snd x)) [(clockAt 0, ?c1), (clockAt 40, ?c2), (clockAt 80, [0x0A])])
      = wide (rmcSentence @ CHR 0x0A # ggaSentence @ [CHR 0x0A])"
    using j[of "rmcSentence @ [CHR 0x0A]" "[0x0A]"] w by (simp add: toStringUtf8_wide u(2))
  have cc: "\<forall>c \<in> set (map snd [(clockAt 0, ?c1), (clockAt 40, ?c2)]). endsOnBoundary c"
    by (simp add: endsOnBoundary_wide)
  from a have p1: "parsed (run [(clockAt 0, SerialData ?c1), (clockAt 40, SerialData ?c2)] initial)
      = [wide (rmcSentence @ [CHR 0x0A])]"
    and b1: "recvBuffer (run [(clockAt 0, SerialData ?c1), (clockAt 40, SerialData ?c2)] initial)
      = wide ggaSentence"
    unfolding t1 by (simp_all add: i0 two_chunks del: step.simps)
  from b have p2: "parsed (run [(clockAt 0, SerialData ?c1), (clockAt 40, SerialData ?c2),
        (clockAt 80, SerialData [0x0A])] initial)
      = [wide (rmcSentence @ [CHR 0x0A]), wide (ggaSentence @ [CHR 0x0A])]"
    and b2: "recvBuffer (run [(clockAt 0, SerialData ?c1), (clockAt 40, SerialData ?c2),
        (clockAt 80, SerialData [0x0A])] initial) = []"
    unfolding t2 by (simp_all add: i0 two_chunks del: step.simps)
  have m: "wide (rmcSentence @ [CHR 0x0A]) \<in> set (linesOf (wide (rmcSentence @ CHR 0x0A # ggaSentence)))"
    by (simp add: two_chunks)
  from a m have l: "last (wide (rmcSentence @ [CHR 0x0A])) = 0x0A"
    unfolding t1 by (simp add: i0)
  from a cc have e: "toStringUtf8 ?c1 @ toStringUtf8 ?c2 = toStringUtf8 (?c1 @ ?c2)"
    by simp
  from p1 b1 p2 b2 m l e u show ?thesis
    by (simp add: endsOnBoundary_wide)
qed

text \<open>
  The claim C5 as it stands has both sentences delivered once the two chunks are in:
  the parser has been handed one line, and the second sentence waits in the buffer.
  And it has the lines depend on the bytes only. The four bytes of a dollar sign, an
  e with acute accent and a line feed, given at once, are a line of three code units;
  cut between the two bytes of the letter, each half of it is decoded to U+FFFD and
  the line has four.
\<close>

theorem second_sentence_stays_buffered:
  "parsed (run [(clockAt 0, SerialData (bufferFrom (wide (rmcSentence @ [CHR 0x0A] @ take 20 ggaSentence)))),
                (clockAt 40, SerialData (bufferFrom (wide (drop 20 ggaSentence))))] initial)
     = [wide (rmcSentence @ [CHR 0x0A])]
   \<and> length (parsed (run [(clockAt 0, SerialData (bufferFrom (wide (rmcSentence @ [CHR 0x0A] @ take 20 ggaSentence)))),
                (clockAt 40, SerialData (bufferFrom (wide (drop 20 ggaSentence))))] initial)) \<noteq> 2
   \<and> recvBuffer (run [(clockAt 0, SerialData (bufferFrom (wide (rmcSentence @ [CHR 0x0A] @ take 20 ggaSentence)))),
                (clockAt 40, SerialData (bufferFrom (wide (drop 20 ggaSentence))))] initial)
     = wide ggaSentence
   \<and> parsed (run [(clockAt 0, SerialData [0x24, 0xC3, 0xA9, 0x0A])] initial) = [[0x24, 0xE9, 0x0A]]
   \<and> parsed (run [(clockAt 0, SerialData [0x24, 0xC3]), (clockAt 40, SerialData [0xA9, 0x0A])] initial)
       = [[0x24, 0xFFFD, 0xFFFD, 0x0A]]"
proof -
  let ?c1 = "bufferFrom (wide (rmcSentence @ [CHR 0x0A] @ take 20 ggaSentence))"
  let ?c2 = "bufferFrom (wide (drop 20 ggaSentence))"
  have n: "0x0A \<notin> set (recvBuffer initial)"
    by (simp add: initial_def)
  have j: "wide (x @ take 20 ggaSentence) @ wide (drop 20 ggaSentence) = wide (x @ ggaSentence)"
    for x
    by (simp only: wide_append[symmetric] append_assoc append_take_drop_id)
  have t1: "concat (map (\<lambda>x. toStringUtf8 (snd x)) [(clockAt 0, ?c1), (clockAt 40, ?c2)])
      = wide (rmcSentence @ CHR 0x0A # ggaSentence)"
    using j[of "rmcSentence @ [CHR 0x0A]"] by (simp add: toStringUtf8_wide)
  have d1: "toStringUtf8 [0x24, 0xC3, 0xA9, 0x0A] = [0x24, 0xE9, 0x0A]"
    "toStringUtf8 [0x24, 0xC3] = [0x24, 0xFFFD]"
    "toStringUtf8 [0xA9, 0x0A] = [0xFFFD, 0x0A]"
    by (simp_all add: toStringUtf8_def decodeByte_def leadByte_def flush_def utf16_def)
  have l1: "linesOf [0x24, 0xE9, 0x0A] = [[0x24, 0xE9, 0x0A]]"
    "linesOf [0x24, 0xFFFD, 0xFFFD, 0x0A] = [[0x24, 0xFFFD, 0xFFFD, 0x0A]]"
    by (simp_all add: linesOf_def)
  from feed_framed[OF n, of "[(clockAt 0, ?c1), (clockAt 40, ?c2)]"]
  have a: "parsed (run [(clockAt 0, SerialData ?c1), (clockAt 40, SerialData ?c2)] initial)
      = [wide (rmcSentence @ [CHR 0x0A])]"
    "recvBuffer (run [(clockAt 0, SerialData ?c1), (clockAt 40, SerialData ?c2)] initial) = wide ggaSentence"
    unfolding t1 by (simp_all add: framing_def initial_def two_chunks del: step.simps)
  from feed_framed[OF n, of "[(clockAt 0, [0x24, 0xC3, 0xA9, 0x0A])]"]
  have b: "parsed (run [(clockAt 0, SerialData [0x24, 0xC3, 0xA9, 0x0A])] initial) = [[0x24, 0xE9, 0x0A]]"
    by (simp add: framing_def initial_def d1 l1 del: step.simps)
  from feed_framed[OF n, of "[(clockAt 0, [0x24, 0xC3]), (clockAt 40, [0xA9, 0x0A])]"]
  have c: "parsed (run [(clockAt 0, SerialData [0x24, 0xC3]), (clockAt 40, SerialData [0xA9, 0x0A])] initial)
       = [[0x24, 0xFFFD, 0xFFFD, 0x0A]]"
    by (simp add: framing_def initial_def d1 l1 del: step.simps)
  from a b c show ?thesis
    by simp
qed

text \<open>
  Claim C8, as amended. The receive buffer is one field for the serial port and the
  UDP socket. The text of serial data and of a datagram (with a line feed added) is
  appended to it and the complete lines are taken off its front, so that what is left
  is the text after the last line feed; a close or an error of the port, the reconnect
  timeout, the unload, the start of the adapter, a probe of the port, \<open>closePort\<close> and
  \<open>openPort\<close> leave it as it is.
\<close>

theorem receive_buffer_shared_and_kept:
  "recvBuffer (step clk SerialClose s) = recvBuffer s
   \<and> recvBuffer (step clk (SerialError stillOpen) s) = recvBuffer s
   \<and> recvBuffer (step clk (TimerFired h outcome) s) = recvBuffer s
   \<and> recvBuffer (step clk Unload s) = recvBuffer s
   \<and> recvBuffer (step clk (Ready outcome) s) = recvBuffer s
   \<and> recvBuffer (step clk ProbeClose s) = recvBuffer s
   \<and> recvBuffer (step clk (ProbeReopen outcome) s) = recvBuffer s
   \<and> recvBuffer (closePort s) = recvBuffer s
   \<and> recvBuffer (openPort clk outcome s) = recvBuffer s
   \<and> recvBuffer (step clk (SerialData d) s) = remainderOf (recvBuffer s @ toStringUtf8 d)
   \<and> recvBuffer (step clk (UdpMessage d) s) = remainderOf (recvBuffer s @ toStringUtf8 d @ [0x0A])
   \<and> concat (linesOf t) @ remainderOf t = t"
proof -
  have "recvBuffer (closePort s) = recvBuffer s" "recvBuffer (openPort clk outcome s) = recvBuffer s"
    using framing_closePort[of s] framing_openPort[of clk outcome s]
    by (simp_all add: framing_def)
  then show ?thesis
    by (simp add: recvBuffer_step framing_whole del: step.simps)
qed

text \<open>
  The claim C8 as it stands has the buffer cleared by a close and holding one source
  only: text received before a close is still there after it, and a datagram completes
  a line that the serial port began.
\<close>

theorem buffer_survives_close:
  "recvBuffer (run [(clockAt 0, SerialData (bufferFrom (wide ''$GNG''))), (clockAt 40, SerialClose)] initial)
     = wide ''$GNG''
   \<and> recvBuffer (run [(clockAt 0, SerialData (bufferFrom (wide ''$GNG''))), (clockAt 40, SerialClose)] initial)
     \<noteq> []
   \<and> parsed (run [(clockAt 0, SerialData (bufferFrom (wide ''$GNG''))),
                  (clockAt 40, UdpMessage (bufferFrom (wide ''GA,1'')))] initial)
       = [wide (''$GNGGA,1'' @ [CHR 0x0A])]"
proof -
  let ?d = "bufferFrom (wide ''$GNG'')"
  have a: "framing (step (clockAt 0) (SerialData ?d) initial) = (wide ''$GNG'', [])"
    unfolding framing_data_event toStringUtf8_wide
    by (simp add: initial_def linesOf_def remainderOf_def wide_def)
  have b: "framing (step (clockAt 40) SerialClose s) = framing s" for s
    by (rule framing_quiet_events)
  have c: "framing (step (clockAt 40) (UdpMessage (bufferFrom (wide ''GA,1'')))
        (step (clockAt 0) (SerialData ?d) initial))
      = ([], [wide (''$GNGGA,1'' @ [CHR 0x0A])])"
    unfolding framing_udp_event toStringUtf8_wide using a
    by (simp add: framing_def linesOf_def remainderOf_def wide_def del: step.simps)
  from a b[of "step (clockAt 0) (SerialData ?d) initial"] c show ?thesis
    by (simp add: run_def framing_def wide_def del: step.simps)
qed

section \<open>Seven-bit input\<close>

text \<open>
  NMEA-0183 is seven-bit text. While every byte that arrives is below 128, every line
  is a string of the decoder, and \<open>undecoded\<close> is never raised: the decoded states of
  the model are then those of the program.
\<close>

definition sevenBit :: "event \<Rightarrow> bool" where
  "sevenBit ev =
     (case ev of
        SerialData d \<Rightarrow> \<forall>b \<in> set d. b < 0x80
      | UdpMessage d \<Rightarrow> \<forall>b \<in> set d. b < 0x80
      | _ \<Rightarrow> True)"

lemma undecoded_gate: "undecoded (setStateIfChangedAsync clk ident v s) = undecoded s"
  by (simp add: setStateIfChangedAsync_def Let_def)

lemma undecoded_applyUpdates: "undecoded (applyUpdates clk us s) = undecoded s"
  unfolding applyUpdates_def
  by (induction us arbitrary: s) (simp_all add: undecoded_gate split: prod.splits)

lemma undecoded_decodeBody: "undecoded (decodeBody clk body s) = undecoded s"
  by (simp add: decodeBody_def Let_def undecoded_applyUpdates split: option.splits)

lemma undecoded_parseSentence: "undecoded (parseSentence clk raw s) = undecoded s"
  by (simp add: parseSentence_def Let_def undecoded_decodeBody)

lemma undecoded_parseSentences:
  "undecoded (foldl (\<lambda>s' raw. parseSentence clk raw s') s ps) = undecoded s"
  by (induction ps arbitrary: s) (simp_all add: undecoded_parseSentence)

lemma undecoded_parseData: "undecoded (parseData clk line s) = undecoded s"
  by (simp add: parseData_def undecoded_parseSentences)

lemma narrow_below:
  "\<forall>u \<in> set us. u < 256 \<Longrightarrow> narrow us = Some (map char_of us)"
  by (simp add: narrow_def list_all_iff)

lemma undecoded_drainLines:
  "\<forall>u \<in> set (recvBuffer s). u < 256 \<Longrightarrow> undecoded (drainLines clk s) = undecoded s"
proof (induction clk s rule: drainLines.induct)
  case (1 clk s)
  show ?case
  proof (cases "indexOf (recvBuffer s) 0x0A")
    case None
    then show ?thesis by (simp add: drainLines.simps[of clk s])
  next
    case (Some idx)
    let ?line = "take (idx + 1) (recvBuffer s)"
    let ?s1 = "s\<lparr>recvBuffer := drop (idx + 1) (recvBuffer s), parsed := parsed s @ [?line]\<rparr>"
    from "1.prems" have "\<forall>u \<in> set ?line. u < 256"
      by (meson in_set_takeD)
    then have p: "parseLine clk ?line ?s1 = parseData clk (map char_of ?line) ?s1"
      by (simp add: parseLine_def narrow_below)
    from "1.prems" have "\<forall>u \<in> set (recvBuffer (parseLine clk ?line ?s1)). u < 256"
      by (simp add: recvBuffer_parseLine) (meson in_set_dropD)
    from "1.IH"[OF Some refl refl this]
    have "undecoded (drainLines clk (parseLine clk ?line ?s1)) = undecoded (parseLine clk ?line ?s1)" .
    also have "\<dots> = undecoded s"
      unfolding p by (simp add: undecoded_parseData)
    finally show ?thesis
      using Some by (simp add: drainLines.simps[of clk s] Let_def)
  qed
qed

lemma toStringUtf8_sevenBit:
  assumes "\<forall>b \<in> set d. b < 0x80"
  shows "\<forall>u \<in> set (toStringUtf8 d). u < 256"
proof -
  have "unat b < 256" if "b \<in> set d" for b
    using assms that by (fastforce simp: word_less_nat_alt)
  then show ?thesis
    by (auto simp: toStringUtf8_ascii(1)[OF assms])
qed

lemma undecoded_processReceivedData:
  assumes "\<forall>u \<in> set (recvBuffer s). u < 256" "\<forall>u \<in> set (toStringUtf8 d). u < 256"
  shows "undecoded (processReceivedData clk d s) = undecoded s"
  using undecoded_drainLines[of "s\<lparr>recvBuffer := recvBuffer s @ toStringUtf8 d\<rparr>" clk] assms
  by (auto simp: processReceivedData_def)

lemma undecoded_scheduleReconnect: "undecoded (scheduleReconnect s) = undecoded s"
  by (simp add: scheduleReconnect_def split: option.splits)

lemma undecoded_clearReconnect: "undecoded (clearReconnect s) = undecoded s"
  by (simp add: clearReconnect_def split: option.splits)

lemma undecoded_closePort: "undecoded (closePort s) = undecoded s"
  by (simp add: closePort_def split: option.splits)

lemma undecoded_openPort: "undecoded (openPort clk outcome s) = undecoded s"
  by (simp add: openPort_def Let_def undecoded_scheduleReconnect undecoded_gate undecoded_closePort)

lemma remainderOf_subset: "set (remainderOf t) \<subseteq> set t"
proof -
  have "set (concat (linesOf t) @ remainderOf t) = set t"
    by (simp only: framing_whole)
  then show ?thesis by auto
qed

lemma sevenBit_step:
  assumes "sevenBit ev" "\<forall>u \<in> set (recvBuffer s). u < 256"
  shows "undecoded (step clk ev s) = undecoded s \<and> (\<forall>u \<in> set (recvBuffer (step clk ev s)). u < 256)"
proof -
  have r: "\<forall>u \<in> set (recvBuffer (step clk ev s)). u < 256"
  proof (cases ev)
    case (SerialData d)
    with assms(1) have "\<forall>u \<in> set (toStringUtf8 d). u < 256"
      by (simp add: sevenBit_def toStringUtf8_sevenBit)
    with assms(2) remainderOf_subset[of "recvBuffer s @ toStringUtf8 d"] SerialData show ?thesis
      unfolding recvBuffer_step by auto
  next
    case (UdpMessage d)
    with assms(1) have "\<forall>u \<in> set (toStringUtf8 d). u < 256"
      by (simp add: sevenBit_def toStringUtf8_sevenBit)
    with assms(2) remainderOf_subset[of "recvBuffer s @ toStringUtf8 d @ [0x0A]"] UdpMessage
    show ?thesis
      unfolding recvBuffer_step by auto
  qed (use assms(2) in \<open>simp_all only: recvBuffer_step event.case\<close>)
  have u: "undecoded (step clk ev s) = undecoded s"
  proof (cases ev)
    case (SerialData d)
    with assms(1) have "\<forall>u \<in> set (toStringUtf8 d). u < 256"
      by (simp add: sevenBit_def toStringUtf8_sevenBit)
    moreover have "recvBuffer (clearReconnect s) = recvBuffer s"
      using framing_clearReconnect[of s] by (simp add: framing_def)
    ultimately show ?thesis
      using SerialData assms(2)
      by (simp add: undecoded_processReceivedData undecoded_clearReconnect)
  next
    case (UdpMessage d)
    with assms(1) have "\<forall>u \<in> set (toStringUtf8 d). u < 256"
      by (simp add: sevenBit_def toStringUtf8_sevenBit)
    then have "\<forall>u \<in> set (toStringUtf8 (bufferFrom (toStringUtf8 d @ [0x0A]))). u < 256"
      by (simp add: toStringUtf8_line)
    moreover have "recvBuffer (setStateIfChangedAsync clk ''info.connection'' (Boolean True) s) = recvBuffer s"
      using framing_gate[of clk "''info.connection''" "Boolean True" s] by (simp add: framing_def)
    ultimately show ?thesis
      using UdpMessage assms(2)
      by (simp add: undecoded_processReceivedData undecoded_gate)
  next
    case (TimerFired h outcome)
    then show ?thesis by (simp add: undecoded_openPort)
  qed (simp_all add: undecoded_openPort undecoded_closePort undecoded_clearReconnect
      undecoded_scheduleReconnect undecoded_gate)
  from u r show ?thesis by simp
qed

lemma sevenBit_run:
  assumes "\<forall>e \<in> set evs. sevenBit (snd e)" "\<forall>u \<in> set (recvBuffer s). u < 256"
  shows "undecoded (run evs s) = undecoded s"
  using assms unfolding run_def
proof (induction evs arbitrary: s)
  case Nil
  show ?case by simp
next
  case (Cons e evs)
  obtain clk ev where e: "e = (clk, ev)" by (cases e)
  with Cons.prems have "sevenBit ev" by simp
  from sevenBit_step[OF this Cons.prems(2), of clk] Cons.IH[of "step clk ev s"] Cons.prems(1)
  show ?case by (simp add: e del: step.simps)
qed

lemma sevenBit_decoded:
  "\<forall>e \<in> set evs. sevenBit (snd e) \<Longrightarrow> \<not> undecoded (run evs initial)"
  using sevenBit_run[of evs initial] by (simp add: initial_def)

section \<open>The checksum\<close>

lemma xor_nat_below_256:
  fixes a b :: nat
  assumes "a < 256" "b < 256"
  shows "a XOR b < 256"
proof -
  have "int a XOR int b < 2 ^ 8"
    using assms by (intro XOR_upper) simp_all
  then have "int (a XOR b) < 256"
    by (simp add: of_nat_xor_eq)
  then show ?thesis by simp
qed

lemma xor_nat_cancel:
  fixes a b c :: nat
  shows "a XOR b = a XOR c \<longleftrightarrow> b = c"
proof
  assume "a XOR b = a XOR c"
  then have "a XOR (a XOR b) = a XOR (a XOR c)" by simp
  then show "b = c" by (simp add: xor.assoc[symmetric])
qed simp

lemma xorCodes_foldl:
  "foldl (\<lambda>chk c. chk XOR charCodeAt c) acc p = acc XOR xorCodes p"
  unfolding xorCodes_def
proof (induction p arbitrary: acc)
  case Nil
  show ?case by simp
next
  case (Cons c p)
  show ?case
    using Cons.IH[of "acc XOR charCodeAt c"] Cons.IH[of "charCodeAt c"]
    by (simp add: xor.assoc)
qed

lemma xorCodes_Cons: "xorCodes (c # p) = charCodeAt c XOR xorCodes p"
  using xorCodes_foldl[of "charCodeAt c" p] by (simp add: xorCodes_def)

lemma xorCodes_append: "xorCodes (p @ q) = xorCodes p XOR xorCodes q"
  by (induction p) (simp_all add: xorCodes_Cons xor.assoc, simp add: xorCodes_def)

lemma xorCodes_below_256: "xorCodes p < 256"
proof (induction p)
  case Nil
  show ?case by (simp add: xorCodes_def)
next
  case (Cons c p)
  have "charCodeAt c < 256" by (simp add: charCodeAt_def)
  with Cons show ?case
    by (simp add: xorCodes_Cons xor_nat_below_256)
qed

lemma xorCodes_update:
  assumes "i < length p"
  shows "xorCodes (p[i := c]) = xorCodes p XOR charCodeAt (p ! i) XOR charCodeAt c"
proof -
  from assms have p: "p = take i p @ (p ! i) # drop (Suc i) p"
    by (simp add: id_take_nth_drop)
  from assms have u: "p[i := c] = take i p @ c # drop (Suc i) p"
    by (simp add: upd_conv_take_nth_drop)
  let ?a = "xorCodes (take i p)" and ?b = "xorCodes (drop (Suc i) p)"
  have "xorCodes p = ?a XOR (charCodeAt (p ! i) XOR ?b)"
    using arg_cong[OF p, of xorCodes] by (simp only: xorCodes_append xorCodes_Cons)
  moreover have "xorCodes (p[i := c]) = ?a XOR (charCodeAt c XOR ?b)"
    by (simp only: u xorCodes_append xorCodes_Cons)
  moreover have "x XOR (x XOR y) = y" for x y :: nat
    by (simp add: xor.assoc[symmetric])
  ultimately show ?thesis
    by (simp add: xor.assoc xor.left_commute xor.commute)
qed

lemma xorCodes_changes:
  assumes "i < length p" "c \<noteq> p ! i"
  shows "xorCodes (p[i := c]) \<noteq> xorCodes p"
proof
  assume "xorCodes (p[i := c]) = xorCodes p"
  with xorCodes_update[OF assms(1), of c]
  have "xorCodes p XOR (charCodeAt (p ! i) XOR charCodeAt c) = xorCodes p XOR 0"
    by (simp add: xor.assoc)
  then have "charCodeAt (p ! i) XOR charCodeAt c = charCodeAt (p ! i) XOR charCodeAt (p ! i)"
    by (simp only: xor_nat_cancel xor_self_eq)
  then have "charCodeAt c = charCodeAt (p ! i)"
    by (simp only: xor_nat_cancel)
  with assms(2) show False
    by (simp add: charCodeAt_def)
qed

text \<open>The upper-case hexadecimal digit of a value below 16.\<close>

definition upperHexDigit :: "nat \<Rightarrow> char" where
  "upperHexDigit d = toUpperChar (hexDigit d)"

lemma upperHexDigit_code:
  "d < 16 \<Longrightarrow> charCodeAt (upperHexDigit d) = (if d < 10 then 48 + d else 55 + d)"
  by (simp add: upperHexDigit_def toUpperChar_def hexDigit_def charCodeAt_def of_char_of)

lemma upperHexDigit_inj:
  assumes "a < 16" "b < 16" "upperHexDigit a = upperHexDigit b"
  shows "a = b"
proof -
  from assms(3) have "charCodeAt (upperHexDigit a) = charCodeAt (upperHexDigit b)"
    by simp
  with assms(1,2) show ?thesis
    by (simp add: upperHexDigit_code split: if_splits)
qed

lemma toString16_below_256:
  assumes "n < 256"
  shows "toUpperCase (toString16 n)
           = (if n < 16 then [upperHexDigit n] else [upperHexDigit (n div 16), upperHexDigit (n mod 16)])"
proof (cases "n < 16")
  case True
  then show ?thesis
    by (simp add: toUpperCase_def upperHexDigit_def)
next
  case False
  with assms have "n div 16 < 16" by simp
  with False show ?thesis
    by (subst toString16.simps) (simp add: toUpperCase_def upperHexDigit_def)
qed

lemma checksumHex_digits:
  "checksumHex p = [upperHexDigit (xorCodes p div 16), upperHexDigit (xorCodes p mod 16)]"
proof -
  have "(of_char (upperHexDigit 0) :: nat) = of_char CHR ''0''"
    using upperHexDigit_code[of 0] by (simp add: charCodeAt_def)
  then have "upperHexDigit 0 = CHR ''0''"
    by (rule of_char_eqI)
  then show ?thesis
    using toString16_below_256[OF xorCodes_below_256[of p]]
    by (simp add: checksumHex_def padStart2_def)
qed

lemma checksumHex_inj: "checksumHex p = checksumHex q \<longleftrightarrow> xorCodes p = xorCodes q"
proof
  assume "checksumHex p = checksumHex q"
  then have "upperHexDigit (xorCodes p div 16) = upperHexDigit (xorCodes q div 16)"
    "upperHexDigit (xorCodes p mod 16) = upperHexDigit (xorCodes q mod 16)"
    by (simp_all add: checksumHex_digits)
  moreover have "xorCodes p div 16 < 16" "xorCodes q div 16 < 16"
    using xorCodes_below_256[of p] xorCodes_below_256[of q] by simp_all
  ultimately have "xorCodes p div 16 = xorCodes q div 16" "xorCodes p mod 16 = xorCodes q mod 16"
    by (auto intro: upperHexDigit_inj)
  then show "xorCodes p = xorCodes q"
    by (metis div_mult_mod_eq)
next
  assume "xorCodes p = xorCodes q"
  then show "checksumHex p = checksumHex q"
    by (simp add: checksumHex_digits)
qed

lemma checksumHex_upper: "toUpperCase (checksumHex p) = checksumHex p"
proof -
  have "toUpperChar (upperHexDigit d) = upperHexDigit d" if "d < 16" for d
    using upperHexDigit_code[OF that] that by (simp add: toUpperChar_def split: if_splits)
  moreover have "xorCodes p div 16 < 16"
    using xorCodes_below_256[of p] by simp
  ultimately show ?thesis
    by (simp add: checksumHex_digits toUpperCase_def)
qed

lemma checksumHex_example:
  "checksumHex ''GNGGA,191721.000,4331.6629,N,01557.8394,E,2,18,0.70,-4.7,M,40.9,M,,'' = ''5F''"
  by code_simp

lemma parseSentence_rejected:
  "\<not> verifyChecksum (drop 1 (trim (removeNewlines (if startsWith raw ''$'' then raw else ''$'' @ raw))))
   \<Longrightarrow> parseSentence clk raw s = s"
  by (simp add: parseSentence_def Let_def)

text \<open>
  Claim C2, as amended. A sentence body with no \<open>*\<close> is accepted. A body whose first
  \<open>*\<close> is at index \<open>i\<close> is accepted exactly when the checksum text of the characters
  before it equals the text after it, trimmed of white space at both ends and put in
  upper case. The checksum text is the XOR of the character codes as two hexadecimal
  digits, upper case and zero-padded (so that the comparison ignores case); for the body
  of the test sentence it is \<open>5F\<close>; and replacing one character of a body by another
  changes it. A part whose body fails the check leaves the adapter as it was.
\<close>

theorem verifyChecksum_spec:
  "(indexOf body CHR ''*'' = None \<longrightarrow> verifyChecksum body)
   \<and> (indexOf body CHR ''*'' = Some i \<longrightarrow>
        (verifyChecksum body \<longleftrightarrow>
           checksumHex (take i body) = toUpperCase (trim (drop (i + 1) body))))
   \<and> checksumHex p = [upperHexDigit (xorCodes p div 16), upperHexDigit (xorCodes p mod 16)]
   \<and> toUpperCase (checksumHex p) = checksumHex p
   \<and> (d < 16 \<longrightarrow> charCodeAt (upperHexDigit d) = (if d < 10 then 48 + d else 55 + d))
   \<and> checksumHex ''GNGGA,191721.000,4331.6629,N,01557.8394,E,2,18,0.70,-4.7,M,40.9,M,,'' = ''5F''
   \<and> (j < length p \<and> c \<noteq> p ! j \<longrightarrow> checksumHex (p[j := c]) \<noteq> checksumHex p)
   \<and> (\<not> verifyChecksum (drop 1 (trim (removeNewlines (if startsWith raw ''$'' then raw else ''$'' @ raw))))
        \<longrightarrow> parseSentence clk raw s = s)"
proof -
  have a: "indexOf body CHR ''*'' = None \<longrightarrow> verifyChecksum body"
    by (simp add: verifyChecksum_def)
  have b: "indexOf body CHR ''*'' = Some i \<longrightarrow>
        (verifyChecksum body \<longleftrightarrow>
           checksumHex (take i body) = toUpperCase (trim (drop (i + 1) body)))"
    by (simp add: verifyChecksum_def Let_def)
  have e: "j < length p \<and> c \<noteq> p ! j \<longrightarrow> checksumHex (p[j := c]) \<noteq> checksumHex p"
    by (simp add: checksumHex_inj xorCodes_changes)
  from a b e checksumHex_digits[of p] checksumHex_upper[of p] upperHexDigit_code[of d]
    checksumHex_example parseSentence_rejected[of raw clk s]
  show ?thesis by blast
qed

theorem verifyChecksum_spec_witness:
  "indexOf ''A*41'' CHR ''*'' = Some 1
   \<and> verifyChecksum ''A*41''
   \<and> checksumHex (take 1 ''A*41'') = toUpperCase (trim (drop (1 + 1) ''A*41''))
   \<and> indexOf ''GNGGA'' CHR ''*'' = None
   \<and> verifyChecksum ''GNGGA''
   \<and> (0 :: nat) < length ''AB''
   \<and> CHR ''C'' \<noteq> ''AB'' ! 0
   \<and> checksumHex (''AB''[0 := CHR ''C'']) \<noteq> checksumHex ''AB''
   \<and> (10 :: nat) < 16
   \<and> charCodeAt (upperHexDigit 10) = 65
   \<and> \<not> verifyChecksum (drop 1 (trim (removeNewlines (if startsWith ''A*40'' ''$'' then ''A*40'' else ''$'' @ ''A*40''))))
   \<and> parseSentence (clockAt 0) ''A*40'' initial = initial"
proof -
  have h1: "indexOf ''A*41'' CHR ''*'' = Some 1" by simp
  have h2: "verifyChecksum ''A*41''" by code_simp
  have h3: "indexOf ''GNGGA'' CHR ''*'' = None" by simp
  have h4: "\<not> verifyChecksum (drop 1 (trim (removeNewlines (if startsWith ''A*40'' ''$'' then ''A*40'' else ''$'' @ ''A*40''))))"
    by code_simp
  note t1 = verifyChecksum_spec[of "''A*41''" 1 "''AB''" 10 0 "CHR ''C''" "''A*40''" "clockAt 0" initial]
  note t2 = verifyChecksum_spec[of "''GNGGA''" 0 "''AB''" 10 0 "CHR ''C''" "''A*40''" "clockAt 0" initial]
  from t1 t2 h1 h2 h3 h4 show ?thesis
    by simp
qed

text \<open>
  The claim C2 as it stands compares with the text after the \<open>*\<close> as it is: a body with
  a blank after the \<open>*\<close> is accepted, though that text is not the checksum text.
\<close>

theorem verifyChecksum_trims_counterexample:
  "indexOf ''A* 41'' CHR ''*'' = Some 1
   \<and> verifyChecksum ''A* 41''
   \<and> checksumHex (take 1 ''A* 41'') \<noteq> toUpperCase (drop (1 + 1) ''A* 41'')"
  by code_simp

section \<open>Sentences fused in one line\<close>

lemma split_not_Nil: "split c t \<noteq> []"
  by (induction t) (auto split: list.splits)

lemma split_append: "split c (a @ c # b) = split c a @ split c b"
proof (induction a)
  case Nil
  show ?case by simp
next
  case (Cons x a)
  obtain y ys where y: "split c a = y # ys"
    using split_not_Nil[of c a] by (cases "split c a") auto
  with Cons show ?case by simp
qed

lemma split_free: "p \<in> set (split c t) \<Longrightarrow> c \<notin> set p"
proof (induction t arbitrary: p)
  case Nil
  then show ?case by simp
next
  case (Cons x t)
  obtain y ys where y: "split c t = y # ys"
    using split_not_Nil[of c t] by (cases "split c t") auto
  with Cons.prems Cons.IH[of y] Cons.IH[of p] show ?case
    by (auto split: if_splits)
qed

lemma set_trim: "set (trim t) \<subseteq> set t"
proof -
  have "set (dropWhile P xs) \<subseteq> set xs" for P and xs :: string
    by (auto dest: set_dropWhileD)
  from this[of isWhiteSpace "rev (dropWhile isWhiteSpace t)"] this[of isWhiteSpace t]
  show ?thesis by (auto simp: trim_def trimEnd_def trimStart_def)
qed

lemma parts_append: "parts (a @ CHR ''$'' # b) = parts a @ parts b"
  by (simp add: parts_def split_append)

lemma parseData_append:
  "parseData clk (a @ CHR ''$'' # b) s = parseData clk b (parseData clk a s)"
  by (simp add: parseData_def parts_append)

lemma trim_ends:
  assumes "trim t \<noteq> []"
  shows "\<not> isWhiteSpace (hd (trim t))" "\<not> isWhiteSpace (last (trim t))"
proof -
  let ?a = "dropWhile isWhiteSpace t"
  let ?b = "dropWhile isWhiteSpace (rev ?a)"
  from assms have b: "?b \<noteq> []"
    by (simp add: trim_def trimEnd_def trimStart_def)
  then have "\<not> isWhiteSpace (hd ?b)"
    by (rule hd_dropWhile)
  with b show "\<not> isWhiteSpace (last (trim t))"
    by (simp add: trim_def trimEnd_def trimStart_def last_rev)
  from b have a: "?a \<noteq> []" by (intro notI) simp
  then have h: "\<not> isWhiteSpace (hd ?a)"
    by (rule hd_dropWhile)
  have "rev ?b = trim t"
    by (simp add: trim_def trimEnd_def trimStart_def)
  obtain k where k: "rev ?a = k @ ?b"
    by (metis takeWhile_dropWhile_id)
  then have "?a = rev ?b @ rev k"
    by (metis rev_append rev_rev_ident)
  with b have "hd ?a = hd (rev ?b)"
    by (metis hd_append2 rev_is_Nil_conv)
  with h show "\<not> isWhiteSpace (hd (trim t))"
    by (simp add: trim_def trimEnd_def trimStart_def)
qed

lemma trim_fixed:
  assumes "t \<noteq> []" "\<not> isWhiteSpace (hd t)" "\<not> isWhiteSpace (last t)"
  shows "trim t = t"
proof -
  from assms(1,2) have a: "dropWhile isWhiteSpace t = t"
    by (cases t) simp_all
  from assms(1,3) have "dropWhile isWhiteSpace (rev t) = rev t"
    by (cases "rev t") (simp_all add: hd_rev[symmetric])
  with a show ?thesis
    by (simp add: trim_def trimEnd_def trimStart_def)
qed

lemma trim_idem: "trim (trim t) = trim t"
proof (cases "trim t = []")
  case True
  have "trim [] = []"
    by (simp add: trim_def trimEnd_def trimStart_def)
  with True show ?thesis by simp
next
  case False
  from trim_fixed[OF False trim_ends[OF False]] show ?thesis .
qed

lemma parts_shape:
  assumes "p \<in> set (parts t)"
  shows "p \<noteq> [] \<and> CHR ''$'' \<notin> set p \<and> trim p = p"
proof -
  from assms obtain q where q: "q \<in> set (split CHR ''$'' t)" and p: "p = trim q" and n: "p \<noteq> []"
    by (auto simp: parts_def)
  from split_free[OF q] set_trim[of q] p have "CHR ''$'' \<notin> set p" by auto
  with n p trim_idem[of q] show ?thesis by simp
qed

lemma set_removeNewlines: "set (removeNewlines t) \<subseteq> set t"
  by (induction t rule: removeNewlines.induct) auto

lemma whiteSpace_chars: "isWhiteSpace CHR 0x0A" "isWhiteSpace CHR 0x0D" "\<not> isWhiteSpace CHR ''$''"
  by (simp_all add: isWhiteSpace_def charCodeAt_def)

lemma removeNewlines_last:
  "t \<noteq> [] \<Longrightarrow> \<not> isWhiteSpace (last t) \<Longrightarrow>
   removeNewlines t \<noteq> [] \<and> last (removeNewlines t) = last t"
proof (induction t rule: removeNewlines.induct)
  case 1
  then show ?case by simp
next
  case (2 x)
  then show ?case using whiteSpace_chars(1) by auto
next
  case (3 x y zs)
  show ?case
  proof (cases "x = CHR 0x0A")
    case True
    with 3 show ?thesis by simp
  next
    case nl: False
    show ?thesis
    proof (cases "x = CHR 0x0D \<and> y = CHR 0x0A")
      case True
      with "3.prems" whiteSpace_chars(1) have "zs \<noteq> []" by auto
      with True nl "3.prems" "3.IH"(2) show ?thesis by simp
    next
      case False
      with nl "3.prems" "3.IH"(3) show ?thesis by auto
    qed
  qed
qed

lemma trimEnd_fixed: "t \<noteq> [] \<Longrightarrow> \<not> isWhiteSpace (last t) \<Longrightarrow> trimEnd t = t"
  by (cases "rev t") (simp_all add: trimEnd_def hd_rev[symmetric])

lemma removeNewlines_dollar: "removeNewlines (CHR ''$'' # t) = CHR ''$'' # removeNewlines t"
  by (cases t) simp_all

lemma trim_dollar: "trim (CHR ''$'' # t) = CHR ''$'' # trimEnd t"
proof -
  have "dropWhile isWhiteSpace (rev t @ [CHR ''$'']) = dropWhile isWhiteSpace (rev t) @ [CHR ''$'']"
    using whiteSpace_chars(3) by (simp add: dropWhile_append)
  then show ?thesis
    using whiteSpace_chars(3) by (simp add: trim_def trimStart_def trimEnd_def)
qed

text \<open>The body that the loop of \<open>parseData\<close> takes from a part.\<close>

lemma parseSentence_part:
  assumes "p \<noteq> []" "CHR ''$'' \<notin> set p" "trim p = p"
  shows "parseSentence clk p s =
           (if verifyChecksum (removeNewlines p) then decodeBody clk (removeNewlines p) s else s)"
proof -
  from assms(1,2) have n: "\<not> startsWith p ''$''"
    by (cases p) (auto simp: startsWith_def)
  from assms(1,3) trim_ends(2)[of p] have "\<not> isWhiteSpace (last p)"
    by simp
  from removeNewlines_last[OF assms(1) this] this
  have "trimEnd (removeNewlines p) = removeNewlines p"
    by (simp add: trimEnd_fixed)
  then have "trim (removeNewlines (''$'' @ p)) = CHR ''$'' # removeNewlines p"
    by (simp add: removeNewlines_dollar trim_dollar)
  with n show ?thesis
    by (simp add: parseSentence_def Let_def startsWith_def)
qed

lemma parseSentences_parts:
  assumes "\<And>p. p \<in> set ps \<Longrightarrow> p \<noteq> [] \<and> CHR ''$'' \<notin> set p \<and> trim p = p"
  shows "foldl (\<lambda>s' raw. parseSentence clk raw s') s ps
           = foldl (\<lambda>s' p. if verifyChecksum (removeNewlines p)
                            then decodeBody clk (removeNewlines p) s' else s') s ps"
  using assms
proof (induction ps arbitrary: s)
  case Nil
  show ?case by simp
next
  case (Cons p ps)
  from Cons.prems[of p] have "p \<noteq> []" "CHR ''$'' \<notin> set p" "trim p = p"
    by simp_all
  from parseSentence_part[OF this] Cons.IH Cons.prems show ?case
    by simp
qed

lemma parseData_parts:
  "parseData clk t s
     = foldl (\<lambda>s' p. if verifyChecksum (removeNewlines p)
                      then decodeBody clk (removeNewlines p) s' else s') s (parts t)"
  unfolding parseData_def
  by (rule parseSentences_parts) (rule parts_shape)

lemma verifyChecksum_no_asterisk: "CHR ''*'' \<notin> set p \<Longrightarrow> verifyChecksum (removeNewlines p)"
proof -
  assume "CHR ''*'' \<notin> set p"
  with set_removeNewlines[of p] have "CHR ''*'' \<notin> set (removeNewlines p)"
    by auto
  then have "indexOf (removeNewlines p) CHR ''*'' = None"
    by (simp add: indexOf_None)
  then show ?thesis
    by (simp add: verifyChecksum_def)
qed

lemma decodeBody_unknown:
  assumes "CHR ''*'' \<notin> set body"
    and "\<not> endsWith (hd (split CHR '','' body)) ''GGA''"
    and "\<not> endsWith (hd (split CHR '','' body)) ''RMC''"
    and "\<not> endsWith (hd (split CHR '','' body)) ''GSA''"
  shows "decodeBody clk body s = s"
proof -
  from assms(1) have i: "indexOf body CHR ''*'' = None"
    by (simp add: indexOf_None)
  obtain y ys where y: "split CHR '','' body = y # ys"
    using split_not_Nil[of "CHR '',''" body] by (cases "split CHR '','' body") auto
  with assms(2-4) i show ?thesis
    by (simp add: decodeBody_def Let_def field_def)
qed

text \<open>
  Claim C10, as amended. \<open>parseData\<close> cuts its text at every \<open>$\<close>, trims the pieces and
  drops the empty ones; each remaining part is non-empty, holds no \<open>$\<close> and is trimmed, so
  it gets the \<open>$\<close> put in front, and its body is the part without its line breaks. The
  parts are decoded in order, each one that passes the checksum: two texts joined by a
  \<open>$\<close> are decoded one after the other. A part with no \<open>*\<close> passes the checksum; it is then
  decoded as a GGA, an RMC or a GSA sentence when its first field ends in these
  letters, and only when that field ends in none of them is the adapter left as it
  was.
\<close>

theorem parseData_fused_sentences:
  "parseData clk t s
     = foldl (\<lambda>s' p. if verifyChecksum (removeNewlines p)
                      then decodeBody clk (removeNewlines p) s' else s') s (parts t)
   \<and> (\<forall>p \<in> set (parts t). p \<noteq> [] \<and> CHR ''$'' \<notin> set p \<and> trim p = p)
   \<and> parseData clk (a @ CHR ''$'' # b) s = parseData clk b (parseData clk a s)
   \<and> (p \<noteq> [] \<and> CHR ''$'' \<notin> set p \<and> trim p = p \<longrightarrow>
        \<not> startsWith p ''$''
        \<and> drop 1 (trim (removeNewlines (''$'' @ p))) = removeNewlines p
        \<and> parseSentence clk p s =
            (if verifyChecksum (removeNewlines p) then decodeBody clk (removeNewlines p) s else s))
   \<and> (CHR ''*'' \<notin> set p \<longrightarrow> verifyChecksum (removeNewlines p))
   \<and> (p \<noteq> [] \<and> CHR ''$'' \<notin> set p \<and> trim p = p \<and> CHR ''*'' \<notin> set p
        \<and> \<not> endsWith (hd (split CHR '','' (removeNewlines p))) ''GGA''
        \<and> \<not> endsWith (hd (split CHR '','' (removeNewlines p))) ''RMC''
        \<and> \<not> endsWith (hd (split CHR '','' (removeNewlines p))) ''GSA''
        \<longrightarrow> parseSentence clk p s = s)
   \<and> (CHR ''*'' \<notin> set body \<longrightarrow>
        decodeBody clk body s =
          (let flds = split CHR '','' body
           in if endsWith (hd flds) ''GGA'' then applyUpdates clk (ggaUpdates clk (lastDate s) flds) s
              else if endsWith (hd flds) ''RMC'' then
                applyUpdates clk (rmcUpdates clk flds)
                  (if truthy (field flds 9)
                   then s\<lparr>lastDate := (case field flds 9 of Some d \<Rightarrow> d | None \<Rightarrow> [])\<rparr>
                   else s)
              else if endsWith (hd flds) ''GSA'' then applyUpdates clk (gsaUpdates flds) s
              else s))"
proof -
  have dispatch: "decodeBody clk body s =
          (let flds = split CHR '','' body
           in if endsWith (hd flds) ''GGA'' then applyUpdates clk (ggaUpdates clk (lastDate s) flds) s
              else if endsWith (hd flds) ''RMC'' then
                applyUpdates clk (rmcUpdates clk flds)
                  (if truthy (field flds 9)
                   then s\<lparr>lastDate := (case field flds 9 of Some d \<Rightarrow> d | None \<Rightarrow> [])\<rparr>
                   else s)
              else if endsWith (hd flds) ''GSA'' then applyUpdates clk (gsaUpdates flds) s
              else s)"
    if a: "CHR ''*'' \<notin> set body"
  proof -
    from a have i: "indexOf body CHR ''*'' = None"
      by (simp add: indexOf_None)
    obtain y ys where y: "split CHR '','' body = y # ys"
      using split_not_Nil[of "CHR '',''" body] by (cases "split CHR '','' body") auto
    then have f: "field (split CHR '','' body) 0 = Some (hd (split CHR '','' body))"
      by (simp add: field_def)
    show ?thesis
      unfolding decodeBody_def i Let_def option.case f by (rule refl)
  qed
  have shape: "\<forall>p \<in> set (parts t). p \<noteq> [] \<and> CHR ''$'' \<notin> set p \<and> trim p = p"
    using parts_shape by blast
  have part: "\<not> startsWith p ''$''
        \<and> drop 1 (trim (removeNewlines (''$'' @ p))) = removeNewlines p
        \<and> parseSentence clk p s =
            (if verifyChecksum (removeNewlines p) then decodeBody clk (removeNewlines p) s else s)"
    if p: "p \<noteq> []" "CHR ''$'' \<notin> set p" "trim p = p"
  proof -
    from p(1,2) have "\<not> startsWith p ''$''"
      by (cases p) (auto simp: startsWith_def)
    moreover from p(1,3) trim_ends(2)[of p] have "\<not> isWhiteSpace (last p)"
      by simp
    from removeNewlines_last[OF p(1) this] this
    have "trimEnd (removeNewlines p) = removeNewlines p"
      by (simp add: trimEnd_fixed)
    then have "drop 1 (trim (removeNewlines (''$'' @ p))) = removeNewlines p"
      by (simp add: removeNewlines_dollar trim_dollar)
    ultimately show ?thesis
      using parseSentence_part[OF p] by simp
  qed
  have unknown: "parseSentence clk p s = s"
    if p: "p \<noteq> []" "CHR ''$'' \<notin> set p" "trim p = p" and a: "CHR ''*'' \<notin> set p"
      and u: "\<not> endsWith (hd (split CHR '','' (removeNewlines p))) ''GGA''"
        "\<not> endsWith (hd (split CHR '','' (removeNewlines p))) ''RMC''"
        "\<not> endsWith (hd (split CHR '','' (removeNewlines p))) ''GSA''"
  proof -
    from a set_removeNewlines[of p] have "CHR ''*'' \<notin> set (removeNewlines p)"
      by auto
    from decodeBody_unknown[OF this u] parseSentence_part[OF p] show ?thesis
      by simp
  qed
  from parseData_parts[of clk t s] shape parseData_append[of clk a b s] part
    verifyChecksum_no_asterisk[of p] unknown dispatch
  show ?thesis by blast
qed

theorem parseData_fused_sentences_witness:
  "''xyz'' \<in> set (parts ''xyz $GPGSA,A,3'')
   \<and> ''xyz'' \<noteq> [] \<and> CHR ''$'' \<notin> set ''xyz'' \<and> trim ''xyz'' = ''xyz'' \<and> CHR ''*'' \<notin> set ''xyz''
   \<and> \<not> endsWith (hd (split CHR '','' (removeNewlines ''xyz''))) ''GGA''
   \<and> \<not> endsWith (hd (split CHR '','' (removeNewlines ''xyz''))) ''RMC''
   \<and> \<not> endsWith (hd (split CHR '','' (removeNewlines ''xyz''))) ''GSA''
   \<and> verifyChecksum (removeNewlines ''xyz'')
   \<and> parseSentence (clockAt 0) ''xyz'' initial = initial
   \<and> parseData (clockAt 0) (''xyz '' @ CHR ''$'' # ''GPGSA,A,3'') initial
       = parseData (clockAt 0) ''GPGSA,A,3'' (parseData (clockAt 0) ''xyz '' initial)
   \<and> sink (parseData (clockAt 0) ''xyz $GPGSA,A,3'' initial)
       = [(''gps.fix_mode'', String ''3D''), (''gps.pdop'', Number (Fin 0)),
          (''gps.hdop'', Number (Fin 0)), (''gps.vdop'', Number (Fin 0))]
   \<and> CHR ''*'' \<notin> set ''GPGSA,A,3''
   \<and> decodeBody (clockAt 0) ''GPGSA,A,3'' initial
       = applyUpdates (clockAt 0) (gsaUpdates [''GPGSA'', ''A'', ''3'']) initial"
proof -
  have h: "''xyz'' \<in> set (parts ''xyz $GPGSA,A,3'')"
    "''xyz'' \<noteq> [] \<and> CHR ''$'' \<notin> set ''xyz'' \<and> trim ''xyz'' = ''xyz'' \<and> CHR ''*'' \<notin> set ''xyz''
     \<and> \<not> endsWith (hd (split CHR '','' (removeNewlines ''xyz''))) ''GGA''
     \<and> \<not> endsWith (hd (split CHR '','' (removeNewlines ''xyz''))) ''RMC''
     \<and> \<not> endsWith (hd (split CHR '','' (removeNewlines ''xyz''))) ''GSA''"
    by code_simp+
  have e: "sink (parseData (clockAt 0) ''xyz $GPGSA,A,3'' initial)
       = [(''gps.fix_mode'', String ''3D''), (''gps.pdop'', Number (Fin 0)),
          (''gps.hdop'', Number (Fin 0)), (''gps.vdop'', Number (Fin 0))]"
    by code_simp
  note t = parseData_fused_sentences[of "clockAt 0" "''xyz $GPGSA,A,3''" initial "''xyz ''" "''GPGSA,A,3''" "''xyz''"
      "''GPGSA,A,3''"]
  have g: "CHR ''*'' \<notin> set ''GPGSA,A,3''"
    "split CHR '','' ''GPGSA,A,3'' = [''GPGSA'', ''A'', ''3'']"
    "\<not> endsWith ''GPGSA'' ''GGA''" "\<not> endsWith ''GPGSA'' ''RMC''" "endsWith ''GPGSA'' ''GSA''"
    by code_simp+
  from t g(1) have "decodeBody (clockAt 0) ''GPGSA,A,3'' initial =
          (let flds = split CHR '','' ''GPGSA,A,3''
           in if endsWith (hd flds) ''GGA''
              then applyUpdates (clockAt 0) (ggaUpdates (clockAt 0) (lastDate initial) flds) initial
              else if endsWith (hd flds) ''RMC'' then
                applyUpdates (clockAt 0) (rmcUpdates (clockAt 0) flds)
                  (if truthy (field flds 9)
                   then initial\<lparr>lastDate := (case field flds 9 of Some d \<Rightarrow> d | None \<Rightarrow> [])\<rparr>
                   else initial)
              else if endsWith (hd flds) ''GSA'' then applyUpdates (clockAt 0) (gsaUpdates flds) initial
              else initial)"
    by blast
  then have c4: "decodeBody (clockAt 0) ''GPGSA,A,3'' initial
       = applyUpdates (clockAt 0) (gsaUpdates [''GPGSA'', ''A'', ''3'']) initial"
    unfolding g(2) Let_def list.sel using g(3,4,5) by simp
  from t h(2) have c1: "parseSentence (clockAt 0) ''xyz'' initial = initial"
    by blast
  from t have c2: "parseData (clockAt 0) (''xyz '' @ CHR ''$'' # ''GPGSA,A,3'') initial
       = parseData (clockAt 0) ''GPGSA,A,3'' (parseData (clockAt 0) ''xyz '' initial)"
    by blast
  from t h(2) have c3: "verifyChecksum (removeNewlines ''xyz'')"
    by blast
  from h e c1 c2 c3 g(1) c4 show ?thesis
    by blast
qed

text \<open>
  The claim C10 as it stands has every part that began without a \<open>$\<close> and holds no \<open>*\<close>
  ignored as an unknown sentence. Noise in front of the first \<open>$\<close> that ends in GGA is
  decoded as a GGA sentence with no fields: on a fresh adapter it writes five states,
  among them a zero fix quality and \<open>info.connection = false\<close>.
\<close>

theorem noise_ending_in_GGA_is_decoded:
  "parts ''abcGGA$GPGSA,A,3'' = [''abcGGA'', ''GPGSA,A,3'']
   \<and> \<not> startsWith ''abcGGA'' ''$''
   \<and> CHR ''*'' \<notin> set ''abcGGA''
   \<and> verifyChecksum ''abcGGA''
   \<and> sink (parseSentence (clockAt 0) ''abcGGA'' initial)
       = [(''gps.fix_quality'', Number (Fin 0)), (''gps.satellites'', Number (Fin 0)),
          (''gps.hdop'', Number (Fin 0)), (''gps.altitude'', Number (Fin 0)),
          (''info.connection'', Boolean False)]
   \<and> parseSentence (clockAt 0) ''abcGGA'' initial \<noteq> initial
   \<and> sink (parseData (clockAt 0) ''abcGGA$GPGSA,A,3'' initial)
       = [(''gps.fix_quality'', Number (Fin 0)), (''gps.satellites'', Number (Fin 0)),
          (''gps.hdop'', Number (Fin 0)), (''gps.altitude'', Number (Fin 0)),
          (''info.connection'', Boolean False),
          (''gps.fix_mode'', String ''3D''), (''gps.pdop'', Number (Fin 0)),
          (''gps.vdop'', Number (Fin 0))]"
proof -
  have a: "parts ''abcGGA$GPGSA,A,3'' = [''abcGGA'', ''GPGSA,A,3'']"
    "\<not> startsWith ''abcGGA'' ''$''" "CHR ''*'' \<notin> set ''abcGGA''" "verifyChecksum ''abcGGA''"
    by code_simp+
  have b: "sink (parseSentence (clockAt 0) ''abcGGA'' initial)
       = [(''gps.fix_quality'', Number (Fin 0)), (''gps.satellites'', Number (Fin 0)),
          (''gps.hdop'', Number (Fin 0)), (''gps.altitude'', Number (Fin 0)),
          (''info.connection'', Boolean False)]"
    by code_simp
  have c: "sink initial = []"
    by (simp add: initial_def)
  from b c have d: "parseSentence (clockAt 0) ''abcGGA'' initial \<noteq> initial"
    by auto
  have e: "sink (parseData (clockAt 0) ''abcGGA$GPGSA,A,3'' initial)
       = [(''gps.fix_quality'', Number (Fin 0)), (''gps.satellites'', Number (Fin 0)),
          (''gps.hdop'', Number (Fin 0)), (''gps.altitude'', Number (Fin 0)),
          (''info.connection'', Boolean False),
          (''gps.fix_mode'', String ''3D''), (''gps.pdop'', Number (Fin 0)),
          (''gps.vdop'', Number (Fin 0))]"
    by code_simp
  from a b d e show ?thesis
    by blast
qed

section \<open>Rounding to a double\<close>

lemma pow2_powi: "pow2 e = 2 powi e"
  by (simp add: pow2_def power_int_def inverse_eq_divide power_one_over)

lemma pow2_pos: "0 < pow2 e"
  by (simp add: pow2_powi zero_less_power_int)

lemma pow2_add: "pow2 (a + b) = pow2 a * pow2 b"
  by (simp add: pow2_powi power_int_add)

lemma pow2_mono: "a \<le> b \<Longrightarrow> pow2 a \<le> pow2 b"
  by (simp add: pow2_powi power_int_increasing)

lemma pow2_strict_mono: "a < b \<Longrightarrow> pow2 a < pow2 b"
  by (simp add: pow2_powi power_int_strict_increasing)

lemma pow2_nat: "pow2 (int n) = 2 ^ n"
  by (simp add: pow2_def)

lemma pow2_binade_unique:
  assumes "pow2 j \<le> x" "x < pow2 (j + 1)" "pow2 k \<le> x" "x < pow2 (k + 1)"
  shows "j = k"
proof (rule ccontr)
  assume "j \<noteq> k"
  then consider "j + 1 \<le> k" | "k + 1 \<le> j" by linarith
  then show False
  proof cases
    case 1
    from pow2_mono[OF 1] assms(2,3) show False by simp
  next
    case 2
    from pow2_mono[OF 2] assms(1,4) show False by simp
  qed
qed

lemma ilog2_bounds:
  assumes "0 < x"
  shows "pow2 (ilog2 x) \<le> x \<and> x < pow2 (ilog2 x + 1)"
proof -
  obtain p q where pq: "quotient_of x = (p, q)"
    by (cases "quotient_of x")
  then have q: "0 < q" and x: "x = of_int p / of_int q"
    by (simp_all add: quotient_of_denom_pos quotient_of_div)
  with assms have p: "0 < p"
    by (simp add: zero_less_divide_iff)
  define bp where "bp = nat (bitlen p - 1)"
  define bq where "bq = nat (bitlen q - 1)"
  have bl: "1 \<le> bitlen p" "1 \<le> bitlen q"
    using p q bitlen_nonneg[of p] bitlen_eq_zero_iff[of p] bitlen_nonneg[of q]
      bitlen_eq_zero_iff[of q]
    by linarith+
  then have sp: "nat (bitlen p) = Suc bp" and sq: "nat (bitlen q) = Suc bq"
    unfolding bp_def bq_def by (simp_all add: Suc_nat_eq_nat_zadd1)
  from bitlen_bounds[OF p] have pb: "2 ^ bp \<le> p" "p < 2 ^ Suc bp"
    unfolding sp bp_def by simp_all
  from bitlen_bounds[OF q] have qb: "2 ^ bq \<le> q" "q < 2 ^ Suc bq"
    unfolding sq bq_def by simp_all
  have k: "bitlen p - bitlen q = int bp - int bq"
    unfolding bp_def bq_def using bl by simp
  let ?k = "int bp - int bq"
  have rp: "(2::rat) ^ bp \<le> of_int p" "rat_of_int p < 2 ^ Suc bp"
    using pb by (metis of_int_le_iff of_int_numeral of_int_power, metis of_int_less_iff of_int_numeral of_int_power)
  have rq: "(2::rat) ^ bq \<le> of_int q" "rat_of_int q < 2 ^ Suc bq"
    using qb by (metis of_int_le_iff of_int_numeral of_int_power, metis of_int_less_iff of_int_numeral of_int_power)
  have qpos: "0 < rat_of_int q" using q by simp
  have e1: "(2::rat) ^ Suc bp = pow2 (?k + 1) * 2 ^ bq"
  proof -
    have "int (Suc bp) = (?k + 1) + int bq" by simp
    then have "pow2 (int (Suc bp)) = pow2 (?k + 1) * pow2 (int bq)"
      using pow2_add[of "?k + 1" "int bq"] by presburger
    then show ?thesis by (simp only: pow2_nat)
  qed
  have e2: "(2::rat) ^ bp = pow2 (?k - 1) * 2 ^ Suc bq"
  proof -
    have "int bp = (?k - 1) + int (Suc bq)" by simp
    then have "pow2 (int bp) = pow2 (?k - 1) * pow2 (int (Suc bq))"
      using pow2_add[of "?k - 1" "int (Suc bq)"] by presburger
    then show ?thesis by (simp only: pow2_nat)
  qed
  have up: "x < pow2 (?k + 1)"
  proof -
    have "x * of_int q = of_int p" using x qpos by simp
    also have "\<dots> < 2 ^ Suc bp" by (rule rp)
    also have "\<dots> = pow2 (?k + 1) * 2 ^ bq" by (rule e1)
    also have "\<dots> \<le> pow2 (?k + 1) * of_int q"
      using rq(1) pow2_pos[of "?k + 1"] by simp
    finally show ?thesis using qpos by simp
  qed
  have lo: "pow2 (?k - 1) < x"
  proof -
    have "pow2 (?k - 1) * of_int q < pow2 (?k - 1) * 2 ^ Suc bq"
      using rq(2) pow2_pos[of "?k - 1"] by simp
    also have "\<dots> = 2 ^ bp" by (rule e2[symmetric])
    also have "\<dots> \<le> of_int p" by (rule rp)
    also have "\<dots> = x * of_int q" using x qpos by simp
    finally show ?thesis using qpos by simp
  qed
  have il: "ilog2 x = (if pow2 ?k \<le> x then ?k else ?k - 1)"
    by (simp add: ilog2_def pq k Let_def)
  show ?thesis
  proof (cases "pow2 ?k \<le> x")
    case True
    with il up show ?thesis by simp
  next
    case False
    with il lo show ?thesis by simp
  qed
qed

lemma ilog2_eqI: "0 < x \<Longrightarrow> pow2 k \<le> x \<Longrightarrow> x < pow2 (k + 1) \<Longrightarrow> ilog2 x = k"
  using ilog2_bounds[of x] pow2_binade_unique[of "ilog2 x" x k] by simp

lemma roundHalfEven_eqI:
  assumes "\<bar>x - of_int m\<bar> < 1 / 2"
  shows "roundHalfEven x = m"
proof (cases "of_int m \<le> x")
  case True
  with assms have "\<lfloor>x\<rfloor> = m"
    by (intro floor_unique) auto
  with assms True show ?thesis
    by (simp add: roundHalfEven_def Let_def)
next
  case False
  with assms have "\<lfloor>x\<rfloor> = m - 1"
    by (intro floor_unique) auto
  with assms False show ?thesis
    by (simp add: roundHalfEven_def Let_def)
qed

lemma pow2_split: "c = a + b \<Longrightarrow> pow2 c = pow2 a * pow2 b"
  by (simp add: pow2_add)

text \<open>
  A positive value in the binade of \<open>2 ^ k\<close>, within the normal range, rounds to the
  multiple of \<open>2 ^ (k - 52)\<close> that is less than half a unit away.
\<close>

lemma fl_eqI:
  assumes pos: "0 < a" and lo: "pow2 k \<le> a" and hi: "a < pow2 (k + 1)"
    and kr: "- 1022 \<le> k" "k \<le> 1022"
    and near: "\<bar>a / pow2 (k - 52) - of_int m\<bar> < 1 / 2"
  shows "fl a = Fin (of_int m * pow2 (k - 52))"
    and "fl (- a) = Fin (- (of_int m * pow2 (k - 52)))"
proof -
  let ?e = "k - 52"
  have il: "ilog2 a = k"
    using pos lo hi by (rule ilog2_eqI)
  from kr have e: "max (k - 52) (- 1074) = ?e"
    by simp
  have r: "roundHalfEven (a / pow2 ?e) = m"
    using near by (rule roundHalfEven_eqI)
  have ep: "0 < pow2 ?e" by (rule pow2_pos)
  have s53: "pow2 (k + 1) = pow2 53 * pow2 ?e"
    by (rule pow2_split) simp
  with hi ep have "a / pow2 ?e < pow2 53"
    by (simp add: pos_divide_less_eq)
  with near have "of_int m < pow2 53 + 1 / 2"
    by linarith
  moreover have "pow2 53 = rat_of_int (2 ^ 53)"
    by (simp add: pow2_def)
  ultimately have "rat_of_int m < rat_of_int (2 ^ 53 + 1)"
    by simp
  then have "m < 2 ^ 53 + 1"
    by (simp only: of_int_less_iff)
  then have "rat_of_int m \<le> pow2 53"
    unfolding \<open>pow2 53 = rat_of_int (2 ^ 53)\<close> by (simp only: of_int_le_iff)
  with ep have "of_int m * pow2 ?e \<le> pow2 53 * pow2 ?e"
    by simp
  also have "\<dots> = pow2 (k + 1)"
    by (rule s53[symmetric])
  also have "\<dots> \<le> pow2 1023"
    using kr by (intro pow2_mono) simp
  also have "\<dots> < pow2 1024"
    by (intro pow2_strict_mono) simp
  finally have y: "\<not> pow2 1024 \<le> of_int m * pow2 ?e"
    by simp
  from pos il e r y show "fl a = Fin (of_int m * pow2 (k - 52))"
    by (simp add: fl_def Let_def)
  from pos il e r y show "fl (- a) = Fin (- (of_int m * pow2 (k - 52)))"
    by (simp add: fl_def Let_def)
qed

text \<open>An integer below \<open>2 ^ 53\<close> in magnitude is a double.\<close>

lemma fl_of_int:
  assumes "\<bar>n\<bar> < 2 ^ 53"
  shows "fl (of_int n) = Fin (of_int n)"
proof -
  have main: "fl (of_int p) = Fin (of_int p) \<and> fl (- of_int p) = Fin (- of_int p)"
    if p: "0 < p" "p < 2 ^ 53" for p :: int
  proof -
    define k where "k = bitlen p - 1"
    from p bitlen_nonneg[of p] bitlen_eq_zero_iff[of p] have k0: "0 \<le> k"
      unfolding k_def by linarith
    from p(2) have "bitlen p \<le> 53"
      by (simp add: bitlen_le_iff_power)
    then have k52: "k \<le> 52"
      unfolding k_def by simp
    from k0 have nk: "nat (bitlen p) = Suc (nat k)"
      unfolding k_def by (simp add: Suc_nat_eq_nat_zadd1)
    from bitlen_bounds[OF p(1)] have b: "2 ^ nat k \<le> p" "p < 2 ^ Suc (nat k)"
      unfolding nk k_def by simp_all
    have lo: "pow2 k \<le> of_int p"
    proof -
      from b(1) have "rat_of_int (2 ^ nat k) \<le> of_int p"
        by (simp only: of_int_le_iff)
      with k0 show ?thesis by (simp add: pow2_def)
    qed
    have hi: "rat_of_int p < pow2 (k + 1)"
    proof -
      from b(2) have "rat_of_int p < of_int (2 ^ Suc (nat k))"
        by (simp only: of_int_less_iff)
      moreover from k0 have "nat (k + 1) = Suc (nat k)"
        by simp
      ultimately show ?thesis using k0 by (simp add: pow2_def)
    qed
    define m where "m = p * 2 ^ nat (52 - k)"
    have "pow2 0 = pow2 (52 - k) * pow2 (k - 52)"
      by (rule pow2_split) simp
    then have "pow2 (52 - k) * pow2 (k - 52) = 1"
      by (simp add: pow2_def)
    moreover have "pow2 (52 - k) = 2 ^ nat (52 - k)"
      using k52 by (simp add: pow2_def)
    ultimately have inv: "2 ^ nat (52 - k) * pow2 (k - 52) = 1"
      by simp
    then have "rat_of_int p / pow2 (k - 52) = of_int m"
      using pow2_pos[of "k - 52"] unfolding m_def
      by (simp add: divide_eq_eq mult.assoc)
    then have near: "\<bar>rat_of_int p / pow2 (k - 52) - of_int m\<bar> < 1 / 2"
      by simp
    have val: "rat_of_int m * pow2 (k - 52) = of_int p"
      unfolding m_def using inv by (simp add: mult.assoc)
    from p(1) have pos: "0 < rat_of_int p" by simp
    from k0 k52 have kr: "- 1022 \<le> k" "k \<le> 1022" by simp_all
    from fl_eqI[OF pos lo hi kr near] val show ?thesis by simp
  qed
  consider "n = 0" | "0 < n" | "n < 0" by linarith
  then show ?thesis
  proof cases
    case 1
    then show ?thesis by (simp add: fl_def)
  next
    case 2
    with assms main[of n] show ?thesis by simp
  next
    case 3
    with assms main[of "- n"] show ?thesis by simp
  qed
qed

lemma fl_numeral:
  "(numeral w :: int) < 2 ^ 53 \<Longrightarrow> fl (numeral w) = Fin (numeral w)"
  "(numeral w :: int) < 2 ^ 53 \<Longrightarrow> fl (- numeral w) = Fin (- numeral w)"
  "fl 0 = Fin 0"
  "fl 1 = Fin 1"
  using fl_of_int[of "numeral w"] fl_of_int[of "- numeral w"] fl_of_int[of 0] fl_of_int[of 1]
  by simp_all

section \<open>Coordinates\<close>

text \<open>The roundings that the two coordinates of the test sentence go through.\<close>

lemma fl_minutes_lat: "fl (316629 / 10000) = Fin (4456157020045915 / 140737488355328)"
proof -
  have "fl (316629 / 10000) = Fin (of_int 8912314040091830 * pow2 (4 - 52))"
    by (rule fl_eqI(1)) (simp_all add: pow2_def)
  then show ?thesis
    by (simp add: pow2_def)
qed

lemma fl_minutes_lat_60: "fl (891231404009183 / 1688849860263936) = Fin (4753234154715643 / 9007199254740992)"
proof -
  have "fl (891231404009183 / 1688849860263936) = Fin (of_int 4753234154715643 * pow2 ((-1) - 52))"
    by (rule fl_eqI(1)) (simp_all add: pow2_def)
  then show ?thesis
    by (simp add: pow2_def)
qed

lemma fl_lat: "fl (392062802108578299 / 9007199254740992) = Fin (765747660368317 / 17592186044416)"
proof -
  have "fl (392062802108578299 / 9007199254740992) = Fin (of_int 6125981282946536 * pow2 (5 - 52))"
    by (rule fl_eqI(1)) (simp_all add: pow2_def)
  then show ?thesis
    by (simp add: pow2_def)
qed

lemma fl_lat_literal: "fl (8705543 / 200000) = Fin (765747660368317 / 17592186044416)"
proof -
  have "fl (8705543 / 200000) = Fin (of_int 6125981282946536 * pow2 (5 - 52))"
    by (rule fl_eqI(1)) (simp_all add: pow2_def)
  then show ?thesis
    by (simp add: pow2_def)
qed

lemma fl_minutes_lon: "fl (289197 / 5000) = Fin (4070085941989579 / 70368744177664)"
proof -
  have "fl (289197 / 5000) = Fin (of_int 8140171883979158 * pow2 (5 - 52))"
    by (rule fl_eqI(1)) (simp_all add: pow2_def)
  then show ?thesis
    by (simp add: pow2_def)
qed

lemma fl_minutes_lon_60: "fl (4070085941989579 / 4222124650659840) = Fin (8682850009577769 / 9007199254740992)"
proof -
  have "fl (4070085941989579 / 4222124650659840) = Fin (of_int 8682850009577769 * pow2 ((-1) - 52))"
    by (rule fl_eqI(1)) (simp_all add: pow2_def)
  then show ?thesis
    by (simp add: pow2_def)
qed

lemma fl_lon: "fl (143790838830692649 / 9007199254740992) = Fin (8986927426918291 / 562949953421312)"
proof -
  have "fl (143790838830692649 / 9007199254740992) = Fin (of_int 8986927426918291 * pow2 (3 - 52))"
    by (rule fl_eqI(1)) (simp_all add: pow2_def)
  then show ?thesis
    by (simp add: pow2_def)
qed

lemma fl_lon_literal: "fl (1596399 / 100000) = Fin (8986927426918291 / 562949953421312)"
proof -
  have "fl (1596399 / 100000) = Fin (of_int 8986927426918291 * pow2 (3 - 52))"
    by (rule fl_eqI(1)) (simp_all add: pow2_def)
  then show ?thesis
    by (simp add: pow2_def)
qed

text \<open>The definitions that evaluate the number parsers on a given text.\<close>

lemmas string_eval = trimStart_def isWhiteSpace_def isDigit_def digitsValue_def charCodeAt_def
  readSign_def readExponent_def startsWith_def pow10_def

lemma nmeaToDecimal_test_sentence:
  "nmeaToDecimal (Some ''4331.6629'') (Some ''N'') = Some (Fin (765747660368317 / 17592186044416))"
  "nmeaToDecimal (Some ''4331.6629'') (Some ''S'') = Some (Fin (- (765747660368317 / 17592186044416)))"
  "nmeaToDecimal (Some ''01557.8394'') (Some ''E'') = Some (Fin (8986927426918291 / 562949953421312))"
  by (simp_all add: nmeaToDecimal_def parseInt10_def parseFloat_def string_eval Let_def isNaN_def
      js_div_def js_neg_def fl_numeral fl_minutes_lat fl_minutes_lat_60 fl_lat
      fl_minutes_lon fl_minutes_lon_60 fl_lon)

lemma nmeaToDecimal_cases:
  "nmeaToDecimal (Some c) (Some h) =
     (let degLen = (if h = ''N'' \<or> h = ''S'' then 2 else 3);
          deg = parseInt10 (Some (take degLen c));
          min = parseFloat (Some (drop degLen c));
          val = js_add deg (js_div min (Fin 60))
      in if indexOf c CHR ''.'' = None \<or> length c \<le> degLen \<or> deg = NaN \<or> min = NaN then None
         else Some (if h = ''S'' \<or> h = ''W'' then js_neg val else val))"
  by (cases c) (auto simp: nmeaToDecimal_def Let_def isNaN_def split: option.splits)

text \<open>
  Claim C1. With the degree field of 2 characters for N and S and of 3 otherwise,
  \<open>nmeaToDecimal\<close> has no value for a text without a decimal point or shorter than the
  degree field; for a longer text with a decimal point whose prefix of that length
  reads as an integer and whose rest reads as a float, the value is degrees plus
  minutes over 60, negated for S and W. (It has no value in the remaining cases: the
  text as long as the degree field, or a part that reads as no number.) For
  \<open>4331.6629\<close>, N, and \<open>01557.8394\<close>, E, the values are the doubles of 43.527715 and
  15.96399.
\<close>

theorem nmeaToDecimal_spec:
  "(let degLen = (if h = ''N'' \<or> h = ''S'' then 2 else 3);
        deg = parseInt10 (Some (take degLen c));
        min = parseFloat (Some (drop degLen c));
        val = js_add deg (js_div min (Fin 60))
    in (indexOf c CHR ''.'' = None \<or> length c < degLen \<longrightarrow>
          nmeaToDecimal (Some c) (Some h) = None)
       \<and> (indexOf c CHR ''.'' \<noteq> None \<and> degLen < length c \<and> deg \<noteq> NaN \<and> min \<noteq> NaN \<longrightarrow>
            nmeaToDecimal (Some c) (Some h)
              = Some (if h = ''S'' \<or> h = ''W'' then js_neg val else val))
       \<and> (nmeaToDecimal (Some c) (Some h) = None \<longleftrightarrow>
            indexOf c CHR ''.'' = None \<or> length c \<le> degLen \<or> deg = NaN \<or> min = NaN))
   \<and> nmeaToDecimal (Some ''4331.6629'') (Some ''N'') = Some (Fin (765747660368317 / 17592186044416))
   \<and> fl (43527715 / 1000000) = Fin (765747660368317 / 17592186044416)
   \<and> \<bar>765747660368317 / 17592186044416 - 43527715 / 1000000\<bar> < (1 / 10 ^ 14 :: rat)
   \<and> nmeaToDecimal (Some ''01557.8394'') (Some ''E'') = Some (Fin (8986927426918291 / 562949953421312))
   \<and> fl (1596399 / 100000) = Fin (8986927426918291 / 562949953421312)
   \<and> \<bar>8986927426918291 / 562949953421312 - 1596399 / 100000\<bar> < (1 / 10 ^ 14 :: rat)"
proof -
  have a: "fl (43527715 / 1000000) = Fin (765747660368317 / 17592186044416)"
    using fl_lat_literal by simp
  have b: "fl (1596399 / 100000) = Fin (8986927426918291 / 562949953421312)"
    using fl_lon_literal by simp
  have c: "\<bar>765747660368317 / 17592186044416 - 43527715 / 1000000\<bar> < (1 / 10 ^ 14 :: rat)"
    "\<bar>8986927426918291 / 562949953421312 - 1596399 / 100000\<bar> < (1 / 10 ^ 14 :: rat)"
    by simp_all
  have d: "(let degLen = (if h = ''N'' \<or> h = ''S'' then 2 else 3);
        deg = parseInt10 (Some (take degLen c));
        min = parseFloat (Some (drop degLen c));
        val = js_add deg (js_div min (Fin 60))
    in (indexOf c CHR ''.'' = None \<or> length c < degLen \<longrightarrow>
          nmeaToDecimal (Some c) (Some h) = None)
       \<and> (indexOf c CHR ''.'' \<noteq> None \<and> degLen < length c \<and> deg \<noteq> NaN \<and> min \<noteq> NaN \<longrightarrow>
            nmeaToDecimal (Some c) (Some h)
              = Some (if h = ''S'' \<or> h = ''W'' then js_neg val else val))
       \<and> (nmeaToDecimal (Some c) (Some h) = None \<longleftrightarrow>
            indexOf c CHR ''.'' = None \<or> length c \<le> degLen \<or> deg = NaN \<or> min = NaN))"
    unfolding nmeaToDecimal_cases[of c h] by (auto simp: Let_def)
  from a b c d nmeaToDecimal_test_sentence(1,3) show ?thesis
    by blast
qed

theorem nmeaToDecimal_spec_witness:
  "indexOf ''4331.6629'' CHR ''.'' \<noteq> None
   \<and> (2 :: nat) < length ''4331.6629''
   \<and> parseInt10 (Some (take 2 ''4331.6629'')) \<noteq> NaN
   \<and> parseFloat (Some (drop 2 ''4331.6629'')) \<noteq> NaN
   \<and> nmeaToDecimal (Some ''4331.6629'') (Some ''S'')
       = Some (js_neg (js_add (parseInt10 (Some (take 2 ''4331.6629'')))
                 (js_div (parseFloat (Some (drop 2 ''4331.6629''))) (Fin 60))))
   \<and> nmeaToDecimal (Some ''4331.6629'') (Some ''S'') = Some (Fin (- (765747660368317 / 17592186044416)))
   \<and> indexOf ''4331'' CHR ''.'' = None
   \<and> nmeaToDecimal (Some ''4331'') (Some ''N'') = None"
proof -
  have h: "indexOf ''4331.6629'' CHR ''.'' \<noteq> None" "(2 :: nat) < length ''4331.6629''"
    "indexOf ''4331'' CHR ''.'' = None"
    by simp_all
  have p: "parseInt10 (Some (take 2 ''4331.6629'')) \<noteq> NaN"
    "parseFloat (Some (drop 2 ''4331.6629'')) \<noteq> NaN"
    by (simp_all add: parseInt10_def parseFloat_def string_eval Let_def fl_numeral fl_minutes_lat)
  note s = nmeaToDecimal_spec[of "''S''" "''4331.6629''", unfolded Let_def]
  note n = nmeaToDecimal_spec[of "''N''" "''4331''", unfolded Let_def]
  from s h p have 1: "nmeaToDecimal (Some ''4331.6629'') (Some ''S'')
       = Some (js_neg (js_add (parseInt10 (Some (take 2 ''4331.6629'')))
                 (js_div (parseFloat (Some (drop 2 ''4331.6629''))) (Fin 60))))"
    by simp
  from n h have 2: "nmeaToDecimal (Some ''4331'') (Some ''N'') = None"
    by simp
  from h p 1 2 nmeaToDecimal_test_sentence(2) show ?thesis
    by blast
qed

section \<open>The carried date\<close>

lemma lastDate_gate: "lastDate (setStateIfChangedAsync clk ident v s) = lastDate s"
  by (simp add: gate_decision)

lemma lastDate_applyUpdates: "lastDate (applyUpdates clk us s) = lastDate s"
  unfolding applyUpdates_def
  by (induction us arbitrary: s) (simp_all add: lastDate_gate split: prod.splits)

text \<open>The fields of a sentence body, as \<open>parseData\<close> cuts them.\<close>

definition sentenceFields :: "string \<Rightarrow> string list" where
  "sentenceFields body =
     split CHR '','' (case indexOf body CHR ''*'' of Some i \<Rightarrow> take i body | None \<Rightarrow> body)"

lemma endsWith_exclusive:
  "endsWith ty ''RMC'' \<Longrightarrow> \<not> endsWith ty ''GGA''"
  "endsWith ty ''GSA'' \<Longrightarrow> \<not> endsWith ty ''GGA''"
  "endsWith ty ''GSA'' \<Longrightarrow> \<not> endsWith ty ''RMC''"
  by (auto simp: endsWith_def)

lemma decodeBody_gga:
  assumes "field (sentenceFields body) 0 = Some ty" "endsWith ty ''GGA''"
  shows "decodeBody clk body s = applyUpdates clk (ggaUpdates clk (lastDate s) (sentenceFields body)) s"
  using assms by (simp add: decodeBody_def sentenceFields_def Let_def)

lemma decodeBody_rmc:
  assumes "field (sentenceFields body) 0 = Some ty" "endsWith ty ''RMC''"
  shows "decodeBody clk body s =
           applyUpdates clk (rmcUpdates clk (sentenceFields body))
             (if truthy (field (sentenceFields body) 9)
              then s\<lparr>lastDate := (case field (sentenceFields body) 9 of Some d \<Rightarrow> d | None \<Rightarrow> [])\<rparr>
              else s)"
  using assms endsWith_exclusive(1)[of ty] by (simp add: decodeBody_def sentenceFields_def Let_def)

lemma decodeBody_rmc_date:
  assumes "field (sentenceFields body) 0 = Some ty" "endsWith ty ''RMC''"
    and "field (sentenceFields body) 9 = Some d" "d \<noteq> []"
  shows "lastDate (decodeBody clk body s) = d"
  using assms by (simp add: decodeBody_rmc lastDate_applyUpdates truthy_def)

text \<open>Two decimal digits, as a number.\<close>

definition twoDigits :: "char \<Rightarrow> char \<Rightarrow> nat" where
  "twoDigits a b = 10 * (charCodeAt a - 48) + (charCodeAt b - 48)"

lemma digit_not_space: "isDigit c \<Longrightarrow> \<not> isWhiteSpace c \<and> c \<noteq> CHR ''-'' \<and> c \<noteq> CHR ''+''"
  by (auto simp: isDigit_def isWhiteSpace_def charCodeAt_def)

lemma twoDigits_bound: "isDigit a \<Longrightarrow> isDigit b \<Longrightarrow> twoDigits a b < 100"
  unfolding twoDigits_def isDigit_def by linarith

lemma parseInt10_twoDigits:
  assumes "isDigit a" "isDigit b"
  shows "parseInt10 (Some [a, b]) = Fin (of_nat (twoDigits a b))"
proof -
  from assms digit_not_space[of a] have "readSign (trimStart [a, b]) = (False, [a, b])"
    by (simp add: trimStart_def readSign_def)
  moreover from assms have "takeWhile isDigit [a, b] = [a, b]"
    by simp
  moreover have "digitsValue [a, b] = twoDigits a b"
    by (simp add: digitsValue_def twoDigits_def)
  moreover have "fl (of_int (int (twoDigits a b))) = Fin (of_int (int (twoDigits a b)))"
    using twoDigits_bound[OF assms] by (intro fl_of_int) simp
  ultimately show ?thesis
    by (simp add: parseInt10_def)
qed

text \<open>The year of a two-digit year, and the time fields as \<open>parseNmeaDateTime\<close> reads them.\<close>

definition centuryYear :: "nat \<Rightarrow> nat" where
  "centuryYear yy = (if 70 \<le> yy then 1900 + yy else 2000 + yy)"

definition timeOfDay :: "string \<Rightarrow> jsnum \<times> jsnum \<times> jsnum \<times> jsnum" where
  "timeOfDay timeStr =
     (let hh = parseInt10 (Some (orElse (slice timeStr 0 2) ''0''));
          mm = parseInt10 (Some (orElse (slice timeStr 2 4) ''0''));
          secFloat = parseFloat (Some (orElse (drop 4 timeStr) ''0''));
          ss = js_floor secFloat;
          ms = js_round (js_mul (js_sub secFloat ss) (Fin 1000))
      in (hh, mm, ss, ms))"

lemma year_rule:
  assumes "yy < 100"
  shows "(if js_ge (Fin (of_nat yy)) (Fin 70) then js_add (Fin 1900) (Fin (of_nat yy))
          else js_add (Fin 2000) (Fin (of_nat yy))) = Fin (of_nat (centuryYear yy))"
proof -
  have a: "fl (of_int (1900 + int yy)) = Fin (of_int (1900 + int yy))"
    using assms by (intro fl_of_int) simp
  have b: "fl (of_int (2000 + int yy)) = Fin (of_int (2000 + int yy))"
    using assms by (intro fl_of_int) simp
  from a b show ?thesis
    by (simp add: js_ge_def js_gt_def centuryYear_def)
qed

lemma month_rule:
  assumes "mm < 100"
  shows "js_sub (Fin (of_nat mm)) (Fin 1) = Fin (of_int (int mm - 1))"
proof -
  have "fl (of_int (int mm - 1)) = Fin (of_int (int mm - 1))"
    using assms by (intro fl_of_int) simp
  then show ?thesis
    by (simp add: js_sub_def js_neg_def)
qed

lemma parseNmeaDateTime_dated:
  assumes t: "t \<noteq> []"
    and d: "isDigit d1" "isDigit d2" "isDigit m1" "isDigit m2" "isDigit y1" "isDigit y2"
  shows "parseNmeaDateTime clk (Some t) (Some (d1 # d2 # m1 # m2 # y1 # y2 # rest)) =
           Some (case timeOfDay t of (hh, mm, ss, ms) \<Rightarrow>
                   Date_UTC (Fin (of_nat (centuryYear (twoDigits y1 y2))))
                     (Fin (of_int (int (twoDigits m1 m2) - 1)))
                     (Fin (of_nat (twoDigits d1 d2))) hh mm ss ms)"
proof -
  let ?d = "d1 # d2 # m1 # m2 # y1 # y2 # rest"
  have s: "orElse (slice ?d 0 2) ''1'' = [d1, d2]" "orElse (slice ?d 2 4) ''1'' = [m1, m2]"
    "orElse (slice ?d 4 6) ''0'' = [y1, y2]"
    by (simp_all add: orElse_def slice_def)
  note p = parseInt10_twoDigits[OF d(1,2)] parseInt10_twoDigits[OF d(3,4)]
    parseInt10_twoDigits[OF d(5,6)]
  note y = year_rule[OF twoDigits_bound[OF d(5,6)]]
  note m = month_rule[OF twoDigits_bound[OF d(3,4)]]
  from t show ?thesis
    unfolding parseNmeaDateTime_def timeOfDay_def
    by (simp add: Let_def s p y m del: js_add.simps)
qed

text \<open>The floor of a rational numeral, and the factor from knots to km/h.\<close>

lemma floor_rat_numeral:
  "\<lfloor>(numeral a :: rat) / numeral b\<rfloor> = numeral a div numeral b"
  "\<lfloor>(1 :: rat) / numeral b\<rfloor> = 1 div numeral b"
  "\<lfloor>- ((numeral a :: rat) / numeral b)\<rfloor> = - numeral a div numeral b"
  "\<lfloor>- ((1 :: rat) / numeral b)\<rfloor> = - 1 div numeral b"
  using floor_divide_of_int_eq[of "numeral a" "numeral b", where ?'a = rat]
    floor_divide_of_int_eq[of 1 "numeral b", where ?'a = rat]
    floor_divide_of_int_eq[of "- numeral a" "numeral b", where ?'a = rat]
    floor_divide_of_int_eq[of "- 1" "numeral b", where ?'a = rat]
  by simp_all

lemma fl_knots_factor: "fl (463 / 250) = Fin (8340666509890159 / 4503599627370496)"
proof -
  have "fl (463 / 250) = Fin (of_int 8340666509890159 * pow2 (0 - 52))"
    by (rule fl_eqI(1)) (simp_all add: pow2_def)
  then show ?thesis
    by (simp add: pow2_def)
qed

lemmas time_eval = parseNmeaDateTime_def parseInt10_def parseFloat_def string_eval orElse_def
  slice_def js_floor_def js_round_def js_mul_def js_sub_def js_neg_def js_ge_def js_gt_def
  Date_UTC_def makeDay_def makeTime_def daysFromCivil_def toInteger_def Let_def fl_numeral
  floor_rat_numeral

lemmas sentence_eval = parts_def trim_def trimEnd_def trimStart_def isWhiteSpace_def charCodeAt_def
  parseSentence_def startsWith_def verifyChecksum_def Let_def

text \<open>An RMC sentence with the date 230125 and a GGA sentence with a time only.\<close>

lemma rmc_dated_updates:
  "rmcUpdates clk [''GNRMC'', ''191721.000'', ''A'', [], [], [], [], [], [], ''230125'']
     = [(''gps.date'', String ''230125''), (''gps.timestamp'', Number (Fin 1737659841000)),
        (''gps.speed_knots'', Number (Fin 0)), (''gps.speed_kmh'', Number (Fin 0)),
        (''gps.course'', Number (Fin 0)), (''info.connection'', Boolean True)]"
  by (simp add: rmcUpdates_def field_def positionUpdates_def nmeaToDecimal_def orZero_def
      toFixed2_def fl_knots_factor time_eval)

lemma rmc_dated:
  "parseData clk ''$GNRMC,191721.000,A,,,,,,,230125'' s
     = applyUpdates clk
         [(''gps.date'', String ''230125''), (''gps.timestamp'', Number (Fin 1737659841000)),
          (''gps.speed_knots'', Number (Fin 0)), (''gps.speed_kmh'', Number (Fin 0)),
          (''gps.course'', Number (Fin 0)), (''info.connection'', Boolean True)]
         (s\<lparr>lastDate := ''230125''\<rparr>)"
proof -
  have p: "parts ''$GNRMC,191721.000,A,,,,,,,230125'' = [''GNRMC,191721.000,A,,,,,,,230125'']"
    by (simp add: sentence_eval)
  have f: "sentenceFields ''GNRMC,191721.000,A,,,,,,,230125''
      = [''GNRMC'', ''191721.000'', ''A'', [], [], [], [], [], [], ''230125'']"
    by (simp add: sentenceFields_def)
  have v: "verifyChecksum ''GNRMC,191721.000,A,,,,,,,230125''"
    by (simp add: verifyChecksum_def)
  have "decodeBody clk ''GNRMC,191721.000,A,,,,,,,230125'' s
      = applyUpdates clk (rmcUpdates clk (sentenceFields ''GNRMC,191721.000,A,,,,,,,230125''))
          (s\<lparr>lastDate := ''230125''\<rparr>)"
    by (subst decodeBody_rmc[where ty = "''GNRMC''"])
      (simp_all add: f field_def endsWith_def truthy_def)
  then show ?thesis
    by (simp add: parseData_parts p v f rmc_dated_updates)
qed

lemma gga_time_only:
  "parseData clk ''$GNGGA,191722.000'' s
     = applyUpdates clk (ggaUpdates clk (lastDate s) [''GNGGA'', ''191722.000'']) s"
proof -
  have p: "parts ''$GNGGA,191722.000'' = [''GNGGA,191722.000'']"
    by (simp add: sentence_eval)
  have f: "sentenceFields ''GNGGA,191722.000'' = [''GNGGA'', ''191722.000'']"
    by (simp add: sentenceFields_def)
  have v: "verifyChecksum ''GNGGA,191722.000''"
    by (simp add: verifyChecksum_def)
  have "decodeBody clk ''GNGGA,191722.000'' s
      = applyUpdates clk (ggaUpdates clk (lastDate s) (sentenceFields ''GNGGA,191722.000'')) s"
    by (rule decodeBody_gga[where ty = "''GNGGA''"]) (simp_all add: f field_def endsWith_def)
  then show ?thesis
    by (simp add: parseData_parts p v f)
qed

lemma gga_time_only_updates:
  "ggaUpdates clk ''230125'' [''GNGGA'', ''191722.000'']
     = [(''gps.timestamp'', Number (Fin 1737659842000)), (''gps.fix_quality'', Number (Fin 0)),
        (''gps.satellites'', Number (Fin 0)), (''gps.hdop'', Number (Fin 0)),
        (''gps.altitude'', Number (Fin 0)), (''info.connection'', Boolean False)]"
  by (simp add: ggaUpdates_def field_def truthy_def positionUpdates_def nmeaToDecimal_def
      orZero_def isNaN_def time_eval)

lemma gga_carried_updates:
  "lastStates (applyUpdates (clockAt 1000)
        [(''gps.timestamp'', Number (Fin 1737659842000)), (''gps.fix_quality'', Number (Fin 0)),
         (''gps.satellites'', Number (Fin 0)), (''gps.hdop'', Number (Fin 0)),
         (''gps.altitude'', Number (Fin 0)), (''info.connection'', Boolean False)]
        (applyUpdates (clockAt 0)
          [(''gps.date'', String ''230125''), (''gps.timestamp'', Number (Fin 1737659841000)),
           (''gps.speed_knots'', Number (Fin 0)), (''gps.speed_kmh'', Number (Fin 0)),
           (''gps.course'', Number (Fin 0)), (''info.connection'', Boolean True)]
          (initial\<lparr>lastDate := ''230125''\<rparr>))) ''gps.timestamp''
     = Some \<lparr>val = Number (Fin 1737659842000), ts = 1000\<rparr>"
  by (simp add: applyUpdates_def gate_decision initial_def clockAt_def strictEq_def)

lemma carried_date_example:
  "lastDate (parseData (clockAt 0) ''$GNRMC,191721.000,A,,,,,,,230125'' initial) = ''230125''"
  "lastStates (parseData (clockAt 1000) ''$GNGGA,191722.000''
        (parseData (clockAt 0) ''$GNRMC,191721.000,A,,,,,,,230125'' initial)) ''gps.timestamp''
     = Some \<lparr>val = Number (Fin 1737659842000), ts = 1000\<rparr>"
  "Date_UTC (Fin 2025) (Fin 0) (Fin 23) (Fin 19) (Fin 17) (Fin 22) (Fin 0) = Fin 1737659842000"
proof -
  show d: "lastDate (parseData (clockAt 0) ''$GNRMC,191721.000,A,,,,,,,230125'' initial) = ''230125''"
    by (simp add: rmc_dated lastDate_applyUpdates)
  show "lastStates (parseData (clockAt 1000) ''$GNGGA,191722.000''
        (parseData (clockAt 0) ''$GNRMC,191721.000,A,,,,,,,230125'' initial)) ''gps.timestamp''
     = Some \<lparr>val = Number (Fin 1737659842000), ts = 1000\<rparr>"
    unfolding gga_time_only d gga_time_only_updates
    unfolding rmc_dated by (rule gga_carried_updates)
  show "Date_UTC (Fin 2025) (Fin 0) (Fin 23) (Fin 19) (Fin 17) (Fin 22) (Fin 0) = Fin 1737659842000"
    by (simp add: time_eval)
qed

text \<open>The same pair with a date field of one character.\<close>

lemma rmc_short_date:
  "parseData (clockAt 0) ''$GNRMC,191721.000,A,,,,,,,1'' s
     = applyUpdates (clockAt 0)
         [(''gps.date'', String ''1''), (''gps.timestamp'', Number (Fin 1793733441000)),
          (''gps.speed_knots'', Number (Fin 0)), (''gps.speed_kmh'', Number (Fin 0)),
          (''gps.course'', Number (Fin 0)), (''info.connection'', Boolean True)]
         (s\<lparr>lastDate := ''1''\<rparr>)"
proof -
  have p: "parts ''$GNRMC,191721.000,A,,,,,,,1'' = [''GNRMC,191721.000,A,,,,,,,1'']"
    by (simp add: sentence_eval)
  have f: "sentenceFields ''GNRMC,191721.000,A,,,,,,,1''
      = [''GNRMC'', ''191721.000'', ''A'', [], [], [], [], [], [], ''1'']"
    by (simp add: sentenceFields_def)
  have v: "verifyChecksum ''GNRMC,191721.000,A,,,,,,,1''"
    by (simp add: verifyChecksum_def)
  have u: "rmcUpdates (clockAt 0) [''GNRMC'', ''191721.000'', ''A'', [], [], [], [], [], [], ''1'']
     = [(''gps.date'', String ''1''), (''gps.timestamp'', Number (Fin 1793733441000)),
        (''gps.speed_knots'', Number (Fin 0)), (''gps.speed_kmh'', Number (Fin 0)),
        (''gps.course'', Number (Fin 0)), (''info.connection'', Boolean True)]"
    by (simp add: rmcUpdates_def field_def positionUpdates_def nmeaToDecimal_def orZero_def
        toFixed2_def fl_knots_factor clockAt_def time_eval)
  have "decodeBody (clockAt 0) ''GNRMC,191721.000,A,,,,,,,1'' s
      = applyUpdates (clockAt 0) (rmcUpdates (clockAt 0) (sentenceFields ''GNRMC,191721.000,A,,,,,,,1''))
          (s\<lparr>lastDate := ''1''\<rparr>)"
    by (subst decodeBody_rmc[where ty = "''GNRMC''"])
      (simp_all add: f field_def endsWith_def truthy_def)
  then show ?thesis
    by (simp add: parseData_parts p v f u)
qed

lemma gga_short_date_updates:
  "ggaUpdates (clockAt 1000) ''1'' [''GNGGA'', ''191722.000'']
     = [(''gps.timestamp'', Number (Fin 1793733442000)), (''gps.fix_quality'', Number (Fin 0)),
        (''gps.satellites'', Number (Fin 0)), (''gps.hdop'', Number (Fin 0)),
        (''gps.altitude'', Number (Fin 0)), (''info.connection'', Boolean False)]"
  by (simp add: ggaUpdates_def field_def truthy_def positionUpdates_def nmeaToDecimal_def
      orZero_def isNaN_def clockAt_def time_eval)

lemma clock_free:
  assumes "6 \<le> length d"
  shows "parseNmeaDateTime clk t (Some d) = parseNmeaDateTime clk' t (Some d)"
    and "ggaUpdates clk d flds = ggaUpdates clk' d flds"
proof -
  from assms have n: "d \<noteq> []" by auto
  with assms show a: "parseNmeaDateTime clk t (Some d) = parseNmeaDateTime clk' t (Some d)" for t
    by (simp add: parseNmeaDateTime_def Let_def split: option.splits)
  from n show "ggaUpdates clk d flds = ggaUpdates clk' d flds"
    by (simp add: ggaUpdates_def Let_def a)
qed

lemma short_date_ignored:
  "length d < 6 \<Longrightarrow> parseNmeaDateTime clk t (Some d) = parseNmeaDateTime clk t None"
  by (simp add: parseNmeaDateTime_def Let_def split: option.splits)

lemma gga_timestamp_first:
  assumes "field flds 1 = Some t" "t \<noteq> []" "carried \<noteq> []"
    and "parseNmeaDateTime clk (Some t) (Some carried) = Some stamp"
  shows "hd (ggaUpdates clk carried flds) = (''gps.timestamp'', Number stamp)"
  using assms by (simp add: ggaUpdates_def Let_def truthy_def)

text \<open>
  Claim C3, as amended. An RMC sentence with a non-empty date field stores that field
  as the carried date. A GGA sentence is decoded with the carried date; when that has
  six characters or more, nothing the GGA sentence emits depends on the host clock,
  and when it has fewer the time stamp is that of a sentence with no date at all (the
  current UTC date). With a carried date that starts with six digits \<open>ddmmyy\<close> and a
  non-empty time field, the first thing the GGA sentence emits is the time stamp of
  that time of day on day \<open>dd\<close>, month \<open>mm\<close> (index \<open>mm - 1\<close>) of the year
  \<open>1900 + yy\<close> for \<open>yy\<close> from 70 and \<open>2000 + yy\<close> below. An RMC sentence with the date
  230125 followed by a GGA sentence with the time 19:17:22 gives the time stamp of
  23 January 2025, 19:17:22 UTC.
\<close>

theorem date_carried_across_sentences:
  "(field (sentenceFields body) 0 = Some ty \<and> endsWith ty ''RMC''
      \<and> field (sentenceFields body) 9 = Some d \<and> d \<noteq> []
      \<longrightarrow> lastDate (decodeBody clk body s) = d)
   \<and> (field (sentenceFields body) 0 = Some ty \<and> endsWith ty ''GGA''
      \<longrightarrow> decodeBody clk body s
            = applyUpdates clk (ggaUpdates clk (lastDate s) (sentenceFields body)) s)
   \<and> (6 \<le> length carried \<longrightarrow> ggaUpdates clk carried flds = ggaUpdates clk' carried flds)
   \<and> (length carried < 6 \<longrightarrow>
        parseNmeaDateTime clk (Some t) (Some carried) = parseNmeaDateTime clk (Some t) None)
   \<and> (field flds 1 = Some t \<and> t \<noteq> []
        \<and> isDigit d1 \<and> isDigit d2 \<and> isDigit m1 \<and> isDigit m2 \<and> isDigit y1 \<and> isDigit y2
      \<longrightarrow> hd (ggaUpdates clk (d1 # d2 # m1 # m2 # y1 # y2 # rest) flds)
            = (''gps.timestamp'',
               Number (case timeOfDay t of (hh, mm, ss, ms) \<Rightarrow>
                   Date_UTC (Fin (of_nat (centuryYear (twoDigits y1 y2))))
                     (Fin (of_int (int (twoDigits m1 m2) - 1)))
                     (Fin (of_nat (twoDigits d1 d2))) hh mm ss ms)))
   \<and> centuryYear yy = (if 70 \<le> yy then 1900 + yy else 2000 + yy)
   \<and> lastDate (parseData (clockAt 0) ''$GNRMC,191721.000,A,,,,,,,230125'' initial) = ''230125''
   \<and> lastStates (parseData (clockAt 1000) ''$GNGGA,191722.000''
        (parseData (clockAt 0) ''$GNRMC,191721.000,A,,,,,,,230125'' initial)) ''gps.timestamp''
       = Some \<lparr>val = Number (Fin 1737659842000), ts = 1000\<rparr>
   \<and> Date_UTC (Fin 2025) (Fin 0) (Fin 23) (Fin 19) (Fin 17) (Fin 22) (Fin 0) = Fin 1737659842000"
proof -
  have a: "field (sentenceFields body) 0 = Some ty \<and> endsWith ty ''RMC''
      \<and> field (sentenceFields body) 9 = Some d \<and> d \<noteq> []
      \<longrightarrow> lastDate (decodeBody clk body s) = d"
    using decodeBody_rmc_date[of body ty d clk s] by blast
  have b: "field (sentenceFields body) 0 = Some ty \<and> endsWith ty ''GGA''
      \<longrightarrow> decodeBody clk body s
            = applyUpdates clk (ggaUpdates clk (lastDate s) (sentenceFields body)) s"
    using decodeBody_gga[of body ty clk s] by blast
  have c: "6 \<le> length carried \<longrightarrow> ggaUpdates clk carried flds = ggaUpdates clk' carried flds"
    using clock_free(2)[of carried clk flds clk'] by blast
  have e: "length carried < 6 \<longrightarrow>
        parseNmeaDateTime clk (Some t) (Some carried) = parseNmeaDateTime clk (Some t) None"
    using short_date_ignored[of carried clk "Some t"] by blast
  have f: "field flds 1 = Some t \<and> t \<noteq> []
        \<and> isDigit d1 \<and> isDigit d2 \<and> isDigit m1 \<and> isDigit m2 \<and> isDigit y1 \<and> isDigit y2
      \<longrightarrow> hd (ggaUpdates clk (d1 # d2 # m1 # m2 # y1 # y2 # rest) flds)
            = (''gps.timestamp'',
               Number (case timeOfDay t of (hh, mm, ss, ms) \<Rightarrow>
                   Date_UTC (Fin (of_nat (centuryYear (twoDigits y1 y2))))
                     (Fin (of_int (int (twoDigits m1 m2) - 1)))
                     (Fin (of_nat (twoDigits d1 d2))) hh mm ss ms))"
  proof (intro impI, elim conjE)
    assume h: "field flds 1 = Some t" "t \<noteq> []"
      and g: "isDigit d1" "isDigit d2" "isDigit m1" "isDigit m2" "isDigit y1" "isDigit y2"
    show "hd (ggaUpdates clk (d1 # d2 # m1 # m2 # y1 # y2 # rest) flds)
            = (''gps.timestamp'',
               Number (case timeOfDay t of (hh, mm, ss, ms) \<Rightarrow>
                   Date_UTC (Fin (of_nat (centuryYear (twoDigits y1 y2))))
                     (Fin (of_int (int (twoDigits m1 m2) - 1)))
                     (Fin (of_nat (twoDigits d1 d2))) hh mm ss ms))"
      by (rule gga_timestamp_first[OF h _ parseNmeaDateTime_dated[OF h(2) g]]) simp
  qed
  have y: "centuryYear yy = (if 70 \<le> yy then 1900 + yy else 2000 + yy)"
    by (simp add: centuryYear_def)
  from a b c e f y carried_date_example show ?thesis
    by blast
qed

theorem date_carried_across_sentences_witness:
  "field (sentenceFields ''GNRMC,191721.000,A,,,,,,,230125'') 0 = Some ''GNRMC''
   \<and> endsWith ''GNRMC'' ''RMC''
   \<and> field (sentenceFields ''GNRMC,191721.000,A,,,,,,,230125'') 9 = Some ''230125''
   \<and> ''230125'' \<noteq> []
   \<and> lastDate (decodeBody (clockAt 1000) ''GNRMC,191721.000,A,,,,,,,230125'' initial) = ''230125''
   \<and> field [''GNGGA'', ''191722.000''] 1 = Some ''191722.000''
   \<and> isDigit CHR ''2'' \<and> isDigit CHR ''3'' \<and> isDigit CHR ''0'' \<and> isDigit CHR ''1'' \<and> isDigit CHR ''5''
   \<and> (6 :: nat) \<le> length ''230125''
   \<and> ggaUpdates (clockAt 1000) ''230125'' [''GNGGA'', ''191722.000'']
       = ggaUpdates (clockAt 0) ''230125'' [''GNGGA'', ''191722.000'']
   \<and> hd (ggaUpdates (clockAt 1000) ''230125'' [''GNGGA'', ''191722.000''])
       = (''gps.timestamp'',
          Number (case timeOfDay ''191722.000'' of (hh, mm, ss, ms) \<Rightarrow>
             Date_UTC (Fin (of_nat (centuryYear (twoDigits CHR ''2'' CHR ''5''))))
               (Fin (of_int (int (twoDigits CHR ''0'' CHR ''1'') - 1)))
               (Fin (of_nat (twoDigits CHR ''2'' CHR ''3''))) hh mm ss ms))
   \<and> centuryYear (twoDigits CHR ''2'' CHR ''5'') = 2025
   \<and> int (twoDigits CHR ''0'' CHR ''1'') - 1 = 0
   \<and> twoDigits CHR ''2'' CHR ''3'' = 23"
proof -
  have h: "field (sentenceFields ''GNRMC,191721.000,A,,,,,,,230125'') 0 = Some ''GNRMC''"
    "endsWith ''GNRMC'' ''RMC''"
    "field (sentenceFields ''GNRMC,191721.000,A,,,,,,,230125'') 9 = Some ''230125''"
    "''230125'' \<noteq> []"
    "field [''GNGGA'', ''191722.000''] 1 = Some ''191722.000''"
    "isDigit CHR ''2''" "isDigit CHR ''3''" "isDigit CHR ''0''" "isDigit CHR ''1''" "isDigit CHR ''5''"
    "(6 :: nat) \<le> length ''230125''" "''191722.000'' \<noteq> []"
    by (simp_all add: sentenceFields_def field_def endsWith_def isDigit_def charCodeAt_def)
  have v: "centuryYear (twoDigits CHR ''2'' CHR ''5'') = 2025"
    "int (twoDigits CHR ''0'' CHR ''1'') - 1 = 0" "twoDigits CHR ''2'' CHR ''3'' = 23"
    by (simp_all add: centuryYear_def twoDigits_def charCodeAt_def)
  note t = date_carried_across_sentences[where body = "''GNRMC,191721.000,A,,,,,,,230125''"
      and ty = "''GNRMC''" and d = "''230125''" and clk = "clockAt 1000" and s = initial
      and carried = "''230125''" and clk' = "clockAt 0" and flds = "[''GNGGA'', ''191722.000'']"
      and t = "''191722.000''" and ?d1.0 = "CHR ''2''" and ?d2.0 = "CHR ''3''"
      and ?m1.0 = "CHR ''0''" and ?m2.0 = "CHR ''1''" and ?y1.0 = "CHR ''2''" and ?y2.0 = "CHR ''5''"
      and rest = "[]" and yy = 25]
  from t h have 1: "lastDate (decodeBody (clockAt 1000) ''GNRMC,191721.000,A,,,,,,,230125'' initial) = ''230125''"
    by blast
  from t h have 2: "ggaUpdates (clockAt 1000) ''230125'' [''GNGGA'', ''191722.000'']
       = ggaUpdates (clockAt 0) ''230125'' [''GNGGA'', ''191722.000'']"
    by blast
  from t h have 3: "hd (ggaUpdates (clockAt 1000) ''230125'' [''GNGGA'', ''191722.000''])
       = (''gps.timestamp'',
          Number (case timeOfDay ''191722.000'' of (hh, mm, ss, ms) \<Rightarrow>
             Date_UTC (Fin (of_nat (centuryYear (twoDigits CHR ''2'' CHR ''5''))))
               (Fin (of_int (int (twoDigits CHR ''0'' CHR ''1'') - 1)))
               (Fin (of_nat (twoDigits CHR ''2'' CHR ''3''))) hh mm ss ms))"
    by blast
  from h v 1 2 3 show ?thesis
    by blast
qed

text \<open>
  The claim C3 as it stands takes the time stamp from the carried date whenever the
  date field is not empty: with the date field \<open>1\<close> the carried date is \<open>1\<close>, and the
  time stamp of the GGA sentence is on the date of the host clock (3 November 2026).
\<close>

theorem short_date_uses_host_clock:
  "lastDate (parseData (clockAt 0) ''$GNRMC,191721.000,A,,,,,,,1'' initial) = ''1''
   \<and> lastStates (parseData (clockAt 1000) ''$GNGGA,191722.000''
        (parseData (clockAt 0) ''$GNRMC,191721.000,A,,,,,,,1'' initial)) ''gps.timestamp''
       = Some \<lparr>val = Number (Date_UTC (Fin 2026) (Fin 10) (Fin 3) (Fin 19) (Fin 17) (Fin 22) (Fin 0)),
               ts = 1000\<rparr>
   \<and> utcFullYear (clockAt 1000) = 2026 \<and> utcMonth (clockAt 1000) = 10 \<and> utcDate (clockAt 1000) = 3"
proof -
  have d: "lastDate (parseData (clockAt 0) ''$GNRMC,191721.000,A,,,,,,,1'' initial) = ''1''"
    by (simp add: rmc_short_date lastDate_applyUpdates)
  have u: "Date_UTC (Fin 2026) (Fin 10) (Fin 3) (Fin 19) (Fin 17) (Fin 22) (Fin 0) = Fin 1793733442000"
    by (simp add: time_eval)
  have "lastStates (parseData (clockAt 1000) ''$GNGGA,191722.000''
        (parseData (clockAt 0) ''$GNRMC,191721.000,A,,,,,,,1'' initial)) ''gps.timestamp''
       = Some \<lparr>val = Number (Fin 1793733442000), ts = 1000\<rparr>"
    unfolding gga_time_only d gga_short_date_updates
    unfolding rmc_short_date
    by (simp add: applyUpdates_def gate_decision initial_def clockAt_def strictEq_def)
  with d u show ?thesis
    by (simp add: clockAt_def)
qed

section \<open>Fields that do not parse\<close>

text \<open>A GGA sentence whose time field does not start with digits.\<close>

lemma fl_hdop_example: "fl (7 / 10) = Fin (3152519739159347 / 4503599627370496)"
proof -
  have "fl (7 / 10) = Fin (of_int 6305039478318694 * pow2 ((-1) - 52))"
    by (rule fl_eqI(1)) (simp_all add: pow2_def)
  then show ?thesis
    by (simp add: pow2_def)
qed

lemma fl_altitude_example: "fl (- (47 / 10)) = Fin (- (5291729562160333 / 1125899906842624))"
proof -
  have "fl (- (47 / 10)) = Fin (- (of_int 5291729562160333 * pow2 (2 - 52)))"
    by (rule fl_eqI(2)) (simp_all add: pow2_def)
  then show ?thesis
    by (simp add: pow2_def)
qed

lemma gga_bad_time_updates:
  "ggaUpdates (clockAt 0) []
      [''GNGGA'', ''xx1721.000'', ''4331.6629'', ''N'', ''01557.8394'', ''E'', ''2'', ''18'', ''0.70'',
       ''-4.7'', ''M'', ''40.9'', ''M'', [], []]
     = [(''gps.timestamp'', Number NaN), (''gps.fix_quality'', Number (Fin 2)),
        (''gps.latitude'', Number (Fin (765747660368317 / 17592186044416))),
        (''gps.longitude'', Number (Fin (8986927426918291 / 562949953421312))),
        (''gps.position'', Joined (Fin (8986927426918291 / 562949953421312)) (Fin (765747660368317 / 17592186044416))),
        (''gps.latlon'', Joined (Fin (765747660368317 / 17592186044416)) (Fin (8986927426918291 / 562949953421312))),
        (''gps.satellites'', Number (Fin 18)),
        (''gps.hdop'', Number (Fin (3152519739159347 / 4503599627370496))),
        (''gps.altitude'', Number (Fin (- (5291729562160333 / 1125899906842624)))),
        (''info.connection'', Boolean True)]"
  by (simp add: ggaUpdates_def field_def truthy_def positionUpdates_def nmeaToDecimal_test_sentence
      orZero_def isNaN_def clockAt_def fl_hdop_example fl_altitude_example time_eval)

text \<open>
  A number field that reads as NaN is 0; without a latitude or a longitude a GGA
  sentence emits everything but the four position channels; and a checksum text of
  fewer than two characters is refused.
\<close>

lemma number_field_default: "orZero NaN = Fin 0"
  by (simp add: orZero_def)

lemma gga_without_position:
  assumes "nmeaToDecimal (field flds 2) (field flds 3) = None
           \<or> nmeaToDecimal (field flds 4) (field flds 5) = None"
  shows "\<exists>stamp. ggaUpdates clk carried flds
           = stamp @ [(''gps.fix_quality'', Number (orZero (parseInt10 (field flds 6)))),
                      (''gps.satellites'', Number (orZero (parseInt10 (field flds 7)))),
                      (''gps.hdop'', Number (orZero (parseFloat (field flds 8)))),
                      (''gps.altitude'', Number (orZero (parseFloat (field flds 9)))),
                      (''info.connection'',
                       Boolean (js_gt (orZero (parseInt10 (field flds 6))) (Fin 0)))]
           \<and> set (map fst stamp) \<subseteq> {''gps.timestamp''}"
proof -
  define stamp where "stamp =
    (if truthy (field flds 1) then
       (case parseNmeaDateTime clk (field flds 1) (if carried = [] then None else Some carried) of
          Some t \<Rightarrow> [(''gps.timestamp'', Number t)]
        | None \<Rightarrow> [])
     else [])"
  from assms have "positionUpdates (nmeaToDecimal (field flds 2) (field flds 3))
      (nmeaToDecimal (field flds 4) (field flds 5)) = []"
    by (auto simp: positionUpdates_def split: option.splits)
  moreover have "\<not> isNaN (orZero x)" for x
    by (simp add: orZero_def isNaN_def)
  ultimately have eq: "ggaUpdates clk carried flds
           = stamp @ [(''gps.fix_quality'', Number (orZero (parseInt10 (field flds 6)))),
                      (''gps.satellites'', Number (orZero (parseInt10 (field flds 7)))),
                      (''gps.hdop'', Number (orZero (parseFloat (field flds 8)))),
                      (''gps.altitude'', Number (orZero (parseFloat (field flds 9)))),
                      (''info.connection'',
                       Boolean (js_gt (orZero (parseInt10 (field flds 6))) (Fin 0)))]"
    by (simp add: ggaUpdates_def Let_def stamp_def)
  have sub: "set (map fst stamp) \<subseteq> {''gps.timestamp''}"
    by (cases "truthy (field flds 1)";
        cases "parseNmeaDateTime clk (field flds 1) (if carried = [] then None else Some carried)")
      (simp_all add: stamp_def)
  show ?thesis
  proof (rule exI[of _ stamp], rule conjI)
    show "ggaUpdates clk carried flds
           = stamp @ [(''gps.fix_quality'', Number (orZero (parseInt10 (field flds 6)))),
                      (''gps.satellites'', Number (orZero (parseInt10 (field flds 7)))),
                      (''gps.hdop'', Number (orZero (parseFloat (field flds 8)))),
                      (''gps.altitude'', Number (orZero (parseFloat (field flds 9)))),
                      (''info.connection'',
                       Boolean (js_gt (orZero (parseInt10 (field flds 6))) (Fin 0)))]"
      by (rule eq)
    show "set (map fst stamp) \<subseteq> {''gps.timestamp''}"
      by (rule sub)
  qed
qed

lemma short_checksum_refused:
  assumes "CHR ''*'' \<notin> set payload" "length seg < 2"
  shows "\<not> verifyChecksum (payload @ CHR ''*'' # seg)"
proof -
  have i: "indexOf (payload @ CHR ''*'' # seg) CHR ''*'' = Some (length payload)"
    using assms(1) by (induction payload) auto
  have "length (dropWhile isWhiteSpace (rev (dropWhile isWhiteSpace seg)))
      \<le> length (rev (dropWhile isWhiteSpace seg))"
    by (rule length_dropWhile_le)
  also have "\<dots> \<le> length seg"
    by (simp add: length_dropWhile_le)
  finally have "length (trim seg) \<le> length seg"
    by (simp add: trim_def trimEnd_def trimStart_def)
  with assms(2) have "length (toUpperCase (trim seg)) < 2"
    by (simp add: toUpperCase_def)
  moreover have "length (checksumHex payload) = 2"
    by (simp add: checksumHex_digits)
  ultimately have "checksumHex payload \<noteq> toUpperCase (trim seg)"
    by auto
  with i show ?thesis
    by (simp add: verifyChecksum_def)
qed

text \<open>
  Claim C7, at a time field with text that is no number. The hour of \<open>xx1721.000\<close>
  reads as NaN, not as 0, and the sentence is not skipped in that field: the time
  stamp NaN goes to the sink, ahead of the other fields of the sentence.
\<close>

theorem unparsable_time_is_forwarded:
  "parseInt10 (Some (orElse (slice ''xx1721.000'' 0 2) ''0'')) = NaN
   \<and> sink (parseData (clockAt 0)
        ''$GNGGA,xx1721.000,4331.6629,N,01557.8394,E,2,18,0.70,-4.7,M,40.9,M,,'' initial)
     = [(''gps.timestamp'', Number NaN), (''gps.fix_quality'', Number (Fin 2)),
        (''gps.latitude'', Number (Fin (765747660368317 / 17592186044416))),
        (''gps.longitude'', Number (Fin (8986927426918291 / 562949953421312))),
        (''gps.position'', Joined (Fin (8986927426918291 / 562949953421312))
                             (Fin (765747660368317 / 17592186044416))),
        (''gps.latlon'', Joined (Fin (765747660368317 / 17592186044416))
                           (Fin (8986927426918291 / 562949953421312))),
        (''gps.satellites'', Number (Fin 18)),
        (''gps.hdop'', Number (Fin (3152519739159347 / 4503599627370496))),
        (''gps.altitude'', Number (Fin (- (5291729562160333 / 1125899906842624)))),
        (''info.connection'', Boolean True)]"
proof -
  let ?b = "''GNGGA,xx1721.000,4331.6629,N,01557.8394,E,2,18,0.70,-4.7,M,40.9,M,,''"
  have n: "parseInt10 (Some (orElse (slice ''xx1721.000'' 0 2) ''0'')) = NaN"
    by (simp add: parseInt10_def orElse_def slice_def string_eval)
  have p: "parts (CHR ''$'' # ?b) = [?b]"
    by (simp add: sentence_eval)
  have f: "sentenceFields ?b
      = [''GNGGA'', ''xx1721.000'', ''4331.6629'', ''N'', ''01557.8394'', ''E'', ''2'', ''18'', ''0.70'',
         ''-4.7'', ''M'', ''40.9'', ''M'', [], []]"
    by (simp add: sentenceFields_def)
  have v: "verifyChecksum ?b"
    by (simp add: verifyChecksum_def)
  have "decodeBody (clockAt 0) ?b initial
      = applyUpdates (clockAt 0) (ggaUpdates (clockAt 0) (lastDate initial) (sentenceFields ?b)) initial"
    by (rule decodeBody_gga[where ty = "''GNGGA''"]) (simp_all add: f field_def endsWith_def)
  moreover have "lastDate initial = []"
    by (simp add: initial_def)
  ultimately have "parseData (clockAt 0) (CHR ''$'' # ?b) initial
      = applyUpdates (clockAt 0)
          [(''gps.timestamp'', Number NaN), (''gps.fix_quality'', Number (Fin 2)),
           (''gps.latitude'', Number (Fin (765747660368317 / 17592186044416))),
           (''gps.longitude'', Number (Fin (8986927426918291 / 562949953421312))),
           (''gps.position'', Joined (Fin (8986927426918291 / 562949953421312))
                                (Fin (765747660368317 / 17592186044416))),
           (''gps.latlon'', Joined (Fin (765747660368317 / 17592186044416))
                              (Fin (8986927426918291 / 562949953421312))),
           (''gps.satellites'', Number (Fin 18)),
           (''gps.hdop'', Number (Fin (3152519739159347 / 4503599627370496))),
           (''gps.altitude'', Number (Fin (- (5291729562160333 / 1125899906842624)))),
           (''info.connection'', Boolean True)] initial"
    by (simp add: parseData_parts p v f gga_bad_time_updates)
  then have "sink (parseData (clockAt 0) (CHR ''$'' # ?b) initial)
      = [(''gps.timestamp'', Number NaN), (''gps.fix_quality'', Number (Fin 2)),
         (''gps.latitude'', Number (Fin (765747660368317 / 17592186044416))),
         (''gps.longitude'', Number (Fin (8986927426918291 / 562949953421312))),
         (''gps.position'', Joined (Fin (8986927426918291 / 562949953421312))
                              (Fin (765747660368317 / 17592186044416))),
         (''gps.latlon'', Joined (Fin (765747660368317 / 17592186044416))
                            (Fin (8986927426918291 / 562949953421312))),
         (''gps.satellites'', Number (Fin 18)),
         (''gps.hdop'', Number (Fin (3152519739159347 / 4503599627370496))),
         (''gps.altitude'', Number (Fin (- (5291729562160333 / 1125899906842624)))),
         (''info.connection'', Boolean True)]"
    by (simp add: applyUpdates_def gate_decision initial_def clockAt_def)
  with n show ?thesis
    by simp
qed

end
